theory Spec2Isabelle
  imports Main "HOL-Library.Word" "HOL-Library.AList"
begin

section \<open>The reference-counted smart pointer of SmartPointer.cpp\<close>

text \<open>
  The development embeds the last version of the class template \<open>SP<T>\<close> of
  \<^verbatim>\<open>src/SmartPointer.cpp\<close> (lines 191 to 266) together with its counter class
  \<open>RC\<close> (lines 165 to 183).

  \<^item> The C++ \<open>int\<close> of \<open>RC::count\<close> is a 32-bit two's complement word; \<open>+\<close> and
    \<open>-\<close> wrap and \<open>sint\<close> reads the signed value.
  \<^item> A pointer is an address (\<open>nat\<close>); a pointer that may be null is an
    \<open>addr option\<close> with \<open>None\<close> for the null pointer.
  \<^item> The free store is explicit: one map for the \<open>RC\<close> objects, one for the
    \<open>T\<close> objects. \<open>new\<close> takes the next unused address and never hands out an
    address twice, so an address names one allocation.
  \<^item> An \<open>SP<T>\<close> object is identified by its own address (what \<open>this\<close> and
    \<open>&sp\<close> are in \<open>operator=\<close>); the live ones are kept in an association list.
  \<^item> Every operation returns \<open>fault + result\<close>. The faults are what C++ leaves
    undefined: the use of an \<open>SP\<close> object that is not alive, a call through a pointer to a
    deleted \<open>RC\<close>, a second \<open>delete\<close> of an object, and an access by the caller through a
    null or dangling pointer. The code itself raises nothing.
  \<^item> The field \<open>deleted\<close> is a log: each \<open>delete pData\<close> on a non-null pointer
    puts the address in front of it. The code has no such log; it only serves to count
    releases.
\<close>

subsection \<open>Data\<close>

type_synonym addr = nat
type_synonym hid = nat
type_synonym cint = "32 word"

record RC =
  count :: cint

record SP =
  pData :: "addr option"
  reference :: addr

record 'a state =
  vars :: "(hid \<times> SP) list"
  rcs :: "addr \<rightharpoonup> RC"
  objs :: "addr \<rightharpoonup> 'a"
  next_addr :: addr
  deleted :: "addr list"

datatype fault =
    OutOfLifetime   \<comment> \<open>an \<open>SP\<close> object used while not alive, or built over a live one\<close>
  | DanglingCounter \<comment> \<open>\<open>reference\<close> points to an \<open>RC\<close> that was deleted\<close>
  | DoubleDelete    \<comment> \<open>\<open>delete pData\<close> on an object that was deleted\<close>
  | NullAccess      \<comment> \<open>the caller reads or writes through a null pointer\<close>
  | DanglingAccess  \<comment> \<open>the caller reads or writes through a pointer to a deleted object\<close>

definition empty_state :: "'a state" where
  "empty_state = \<lparr>vars = [], rcs = Map.empty, objs = Map.empty, next_addr = 0, deleted = []\<rparr>"

subsection \<open>The counter class RC\<close>

text \<open>\<^verbatim>\<open>void AddRef() { count++; }\<close>\<close>

definition AddRef :: "RC \<Rightarrow> RC" where
  "AddRef rc = rc\<lparr>count := count rc + 1\<rparr>"

text \<open>\<^verbatim>\<open>int Release() { return --count; }\<close>: the value returned and the counter after.\<close>

definition Release :: "RC \<Rightarrow> cint \<times> RC" where
  "Release rc = (let rc' = rc\<lparr>count := count rc - 1\<rparr> in (count rc', rc'))"

text \<open>The two calls through a pointer \<open>RC*\<close>: \<open>reference->AddRef()\<close> and
  \<open>reference->Release()\<close>.\<close>

definition ref_AddRef :: "addr \<Rightarrow> 'a state \<Rightarrow> fault + 'a state" where
  "ref_AddRef r s =
     (case rcs s r of
        None \<Rightarrow> Inl DanglingCounter
      | Some rc \<Rightarrow> Inr (s\<lparr>rcs := (rcs s)(r \<mapsto> AddRef rc)\<rparr>))"

definition ref_Release :: "addr \<Rightarrow> 'a state \<Rightarrow> fault + (cint \<times> 'a state)" where
  "ref_Release r s =
     (case rcs s r of
        None \<Rightarrow> Inl DanglingCounter
      | Some rc \<Rightarrow> (case Release rc of (n, rc') \<Rightarrow> Inr (n, s\<lparr>rcs := (rcs s)(r \<mapsto> rc')\<rparr>)))"

subsection \<open>The free store\<close>

text \<open>\<open>new RC()\<close>: \<open>RC\<close> declares no constructor, so the parentheses value-initialise
  the object and \<open>count\<close> starts at 0.\<close>

definition new_RC :: "'a state \<Rightarrow> addr \<times> 'a state" where
  "new_RC s =
     (next_addr s,
      s\<lparr>rcs := (rcs s)(next_addr s \<mapsto> \<lparr>count = 0\<rparr>), next_addr := Suc (next_addr s)\<rparr>)"

text \<open>\<open>new T(...)\<close> in the caller, as in \<open>SP<PERSON> p(new Person("Scott", 25))\<close>.\<close>

definition new_T :: "'a \<Rightarrow> 'a state \<Rightarrow> addr \<times> 'a state" where
  "new_T v s =
     (next_addr s,
      s\<lparr>objs := (objs s)(next_addr s \<mapsto> v), next_addr := Suc (next_addr s)\<rparr>)"

text \<open>\<open>delete pData\<close>: nothing on a null pointer; otherwise the object is destroyed.\<close>

definition delete_T :: "addr option \<Rightarrow> 'a state \<Rightarrow> fault + 'a state" where
  "delete_T p s =
     (case p of
        None \<Rightarrow> Inr s
      | Some a \<Rightarrow>
          (case objs s a of
             None \<Rightarrow> Inl DoubleDelete
           | Some v \<Rightarrow> Inr (s\<lparr>objs := (objs s)(a := None), deleted := a # deleted s\<rparr>)))"

text \<open>\<open>delete reference\<close>.\<close>

definition delete_RC :: "addr \<Rightarrow> 'a state \<Rightarrow> 'a state" where
  "delete_RC r s = s\<lparr>rcs := (rcs s)(r := None)\<rparr>"

subsection \<open>The class template SP\<close>

definition alive :: "hid \<Rightarrow> 'a state \<Rightarrow> bool" where
  "alive h s = (h \<in> fst ` set (vars s))"

text \<open>The end of a constructor: the object at \<open>h\<close> is alive with these two fields.\<close>

definition begin_lifetime :: "hid \<Rightarrow> SP \<Rightarrow> 'a state \<Rightarrow> 'a state" where
  "begin_lifetime h sp s = s\<lparr>vars := vars s @ [(h, sp)]\<rparr>"

text \<open>The end of the destructor: the object at \<open>h\<close> is gone.\<close>

definition end_lifetime :: "hid \<Rightarrow> 'a state \<Rightarrow> 'a state" where
  "end_lifetime h s = s\<lparr>vars := AList.delete h (vars s)\<rparr>"

text \<open>\<^verbatim>\<open>SP() : pData(0), reference(0) { reference = new RC(); reference->AddRef(); }\<close>\<close>

definition SP_default :: "hid \<Rightarrow> 'a state \<Rightarrow> fault + 'a state" where
  "SP_default h s =
     (if alive h s then Inl OutOfLifetime
      else (case new_RC s of (r, s1) \<Rightarrow>
        (case ref_AddRef r s1 of
           Inl e \<Rightarrow> Inl e
         | Inr s2 \<Rightarrow> Inr (begin_lifetime h \<lparr>pData = None, reference = r\<rparr> s2))))"

text \<open>\<^verbatim>\<open>SP(T* pValue) : pData(pValue), reference(0)
  { reference = new RC(); reference->AddRef(); }\<close>\<close>

definition SP_raw :: "hid \<Rightarrow> addr option \<Rightarrow> 'a state \<Rightarrow> fault + 'a state" where
  "SP_raw h pValue s =
     (if alive h s then Inl OutOfLifetime
      else (case new_RC s of (r, s1) \<Rightarrow>
        (case ref_AddRef r s1 of
           Inl e \<Rightarrow> Inl e
         | Inr s2 \<Rightarrow> Inr (begin_lifetime h \<lparr>pData = pValue, reference = r\<rparr> s2))))"

text \<open>\<^verbatim>\<open>SP(const SP<T>& sp) : pData(sp.pData), reference(sp.reference)
  { reference->AddRef(); }\<close>\<close>

definition SP_copy :: "hid \<Rightarrow> hid \<Rightarrow> 'a state \<Rightarrow> fault + 'a state" where
  "SP_copy h src s =
     (if alive h s then Inl OutOfLifetime
      else (case map_of (vars s) src of
          None \<Rightarrow> Inl OutOfLifetime
        | Some sp \<Rightarrow>
            (case ref_AddRef (reference sp) s of
               Inl e \<Rightarrow> Inl e
             | Inr s1 \<Rightarrow>
                 Inr (begin_lifetime h \<lparr>pData = pData sp, reference = reference sp\<rparr> s1))))"

text \<open>The block \<^verbatim>\<open>if(reference->Release() == 0) { delete pData; delete reference; }\<close>
  stands twice in the source, word for word: in the destructor (lines 228 to 232) and in
  \<open>operator=\<close> (lines 252 to 256). It is run on the fields of \<open>this\<close>.\<close>

definition release_block :: "SP \<Rightarrow> 'a state \<Rightarrow> fault + 'a state" where
  "release_block this s =
     (case ref_Release (reference this) s of
        Inl e \<Rightarrow> Inl e
      | Inr (n, s1) \<Rightarrow>
          if n = 0 then
            (case delete_T (pData this) s1 of
               Inl e \<Rightarrow> Inl e
             | Inr s2 \<Rightarrow> Inr (delete_RC (reference this) s2))
          else Inr s1)"

text \<open>\<^verbatim>\<open>~SP() { if (reference->Release() == 0) { delete pData; delete reference; } }\<close>\<close>

definition SP_dtor :: "hid \<Rightarrow> 'a state \<Rightarrow> fault + 'a state" where
  "SP_dtor h s =
     (case map_of (vars s) h of
        None \<Rightarrow> Inl OutOfLifetime
      | Some this \<Rightarrow>
          (case release_block this s of
             Inl e \<Rightarrow> Inl e
           | Inr s1 \<Rightarrow> Inr (end_lifetime h s1)))"

text \<open>\<^verbatim>\<open>T& operator* () { return *pData; }\<close> and
  \<^verbatim>\<open>T* operator-> () { return pData; }\<close>: neither tests \<open>pData\<close>, and neither reads
  or writes the object. Both hand the stored pointer to the caller, the first as a
  reference to what it points to; a reference is modelled by the address it stands for.
  With a null \<open>pData\<close> the second returns the null pointer, which is defined C++; the
  first forms a reference from it, which C++ leaves undefined and which compiles to the
  same return of the pointer. The fault, if any, is at the access by the caller
  (\<open>load\<close> and \<open>store\<close> below).\<close>

definition op_deref :: "hid \<Rightarrow> 'a state \<Rightarrow> fault + addr option" where
  "op_deref h s =
     (case map_of (vars s) h of None \<Rightarrow> Inl OutOfLifetime | Some sp \<Rightarrow> Inr (pData sp))"

definition op_arrow :: "hid \<Rightarrow> 'a state \<Rightarrow> fault + addr option" where
  "op_arrow h s =
     (case map_of (vars s) h of None \<Rightarrow> Inl OutOfLifetime | Some sp \<Rightarrow> Inr (pData sp))"

text \<open>
  \<^verbatim>\<open>SP<T>& operator = (const SP<T>& sp)
  { if (this != &sp)
    { if (reference->Release() == 0) { delete pData; delete reference; }
      pData = sp.pData; reference = sp.reference; reference->AddRef(); }
    return *this; }\<close>
  The fields of \<open>sp\<close> are read after the old binding was dropped.
\<close>

definition SP_assign :: "hid \<Rightarrow> hid \<Rightarrow> 'a state \<Rightarrow> fault + 'a state" where
  "SP_assign h src s =
     (case map_of (vars s) h of
        None \<Rightarrow> Inl OutOfLifetime
      | Some this \<Rightarrow>
          if alive src s then
            if h \<noteq> src then
              (case release_block this s of
                 Inl e \<Rightarrow> Inl e
               | Inr s1 \<Rightarrow>
                   (case map_of (vars s1) src of
                      None \<Rightarrow> Inl OutOfLifetime
                    | Some sp \<Rightarrow>
                        ref_AddRef (reference sp)
                          (s1\<lparr>vars := AList.update h
                                \<lparr>pData = pData sp, reference = reference sp\<rparr> (vars s1)\<rparr>)))
            else Inr s
          else Inl OutOfLifetime)"

subsection \<open>What the caller does with the pointer it gets\<close>

text \<open>Reading and writing the object behind a \<open>T*\<close> or \<open>T&\<close>. Through a null pointer or
  a pointer to a deleted object the access is undefined in C++.\<close>

definition load :: "addr option \<Rightarrow> 'a state \<Rightarrow> fault + 'a" where
  "load p s =
     (case p of
        None \<Rightarrow> Inl NullAccess
      | Some a \<Rightarrow> (case objs s a of None \<Rightarrow> Inl DanglingAccess | Some v \<Rightarrow> Inr v))"

definition store :: "addr option \<Rightarrow> 'a \<Rightarrow> 'a state \<Rightarrow> fault + 'a state" where
  "store p v s =
     (case p of
        None \<Rightarrow> Inl NullAccess
      | Some a \<Rightarrow>
          (case objs s a of
             None \<Rightarrow> Inl DanglingAccess
           | Some w \<Rightarrow> Inr (s\<lparr>objs := (objs s)(a \<mapsto> v)\<rparr>)))"

text \<open>\<open>*h\<close> read, and \<open>*h = v\<close>.\<close>

definition read_through :: "hid \<Rightarrow> 'a state \<Rightarrow> fault + 'a" where
  "read_through h s = (case op_deref h s of Inl e \<Rightarrow> Inl e | Inr p \<Rightarrow> load p s)"

definition write_through :: "hid \<Rightarrow> 'a \<Rightarrow> 'a state \<Rightarrow> fault + 'a state" where
  "write_through h v s = (case op_deref h s of Inl e \<Rightarrow> Inl e | Inr p \<Rightarrow> store p v s)"

subsection \<open>Programs over handles\<close>

text \<open>The statements of a client such as \<open>main\<close> (lines 269 to 286):
  \<open>SP<T> h;\<close>, \<open>SP<T> h(new T(v));\<close>, \<open>SP<T> h = src;\<close>, \<open>h = src;\<close> and the end of
  the scope of \<open>h\<close>.\<close>

datatype 'a stmt =
    Default hid
  | Construct hid 'a
  | Copy hid hid
  | Assign hid hid
  | Destroy hid

fun exec :: "'a stmt \<Rightarrow> 'a state \<Rightarrow> fault + 'a state" where
  "exec (Default h) s = SP_default h s"
| "exec (Construct h v) s = (case new_T v s of (a, s1) \<Rightarrow> SP_raw h (Some a) s1)"
| "exec (Copy h src) s = SP_copy h src s"
| "exec (Assign h src) s = SP_assign h src s"
| "exec (Destroy h) s = SP_dtor h s"

fun run :: "'a stmt list \<Rightarrow> 'a state \<Rightarrow> fault + 'a state" where
  "run [] s = Inr s"
| "run (c # cs) s = (case exec c s of Inl e \<Rightarrow> Inl e | Inr s' \<Rightarrow> run cs s')"

text \<open>A program respects scoping when it declares a handle only at an unused place and
  uses or destroys only handles that are alive. \<open>L\<close> is the set of the live ones.\<close>

fun scoped :: "hid set \<Rightarrow> 'a stmt list \<Rightarrow> bool" where
  "scoped L [] = True"
| "scoped L (Default h # cs) = (h \<notin> L \<and> scoped (insert h L) cs)"
| "scoped L (Construct h v # cs) = (h \<notin> L \<and> scoped (insert h L) cs)"
| "scoped L (Copy h src # cs) = (h \<notin> L \<and> src \<in> L \<and> scoped (insert h L) cs)"
| "scoped L (Assign h src # cs) = (h \<in> L \<and> src \<in> L \<and> scoped L cs)"
| "scoped L (Destroy h # cs) = (h \<in> L \<and> scoped (L - {h}) cs)"

text \<open>The number of live handles whose \<open>reference\<close> is \<open>r\<close>.\<close>

definition refcount :: "addr \<Rightarrow> (hid \<times> SP) list \<Rightarrow> nat" where
  "refcount r vs = length (filter (\<lambda>(h, sp). reference sp = r) vs)"

text \<open>The live handles whose \<open>pData\<close> is the address \<open>a\<close>.\<close>

definition owners :: "addr \<Rightarrow> 'a state \<Rightarrow> hid list" where
  "owners a s = map fst (filter (\<lambda>(h, sp). pData sp = Some a) (vars s))"

subsection \<open>Consistent states\<close>

text \<open>No two live handles sit at the same place.\<close>

definition keys_ok :: "'a state \<Rightarrow> bool" where
  "keys_ok s = distinct (map fst (vars s))"

text \<open>The counter of every live handle exists and holds the number of live handles
  bound to it (as a 32-bit word).\<close>

definition counters_ok :: "'a state \<Rightarrow> bool" where
  "counters_ok s =
     (\<forall>(h, sp) \<in> set (vars s).
        reference sp < next_addr s \<and>
        (case rcs s (reference sp) of
           None \<Rightarrow> False
         | Some rc \<Rightarrow> count rc = of_nat (refcount (reference sp) (vars s))))"

text \<open>A counter goes with one value: handles with the same counter have the same
  \<open>pData\<close>, and handles with the same non-null \<open>pData\<close> have the same counter.\<close>

definition bindings_ok :: "'a state \<Rightarrow> bool" where
  "bindings_ok s =
     (\<forall>(h, sp) \<in> set (vars s). \<forall>(h', sp') \<in> set (vars s).
        (reference sp = reference sp' \<longrightarrow> pData sp = pData sp') \<and>
        (pData sp = pData sp' \<and> pData sp \<noteq> None \<longrightarrow> reference sp = reference sp'))"

text \<open>What a live handle points to has not been deleted.\<close>

definition payloads_ok :: "'a state \<Rightarrow> bool" where
  "payloads_ok s =
     (\<forall>(h, sp) \<in> set (vars s).
        case pData sp of None \<Rightarrow> True | Some a \<Rightarrow> a < next_addr s \<and> objs s a \<noteq> None)"

text \<open>Nothing was deleted twice, and what was deleted is gone.\<close>

definition log_ok :: "'a state \<Rightarrow> bool" where
  "log_ok s =
     (distinct (deleted s) \<and> (\<forall>a \<in> set (deleted s). a < next_addr s \<and> objs s a = None))"

definition consistent :: "'a state \<Rightarrow> bool" where
  "consistent s =
     (keys_ok s \<and> counters_ok s \<and> bindings_ok s \<and> payloads_ok s \<and> log_ok s)"

text \<open>The value at \<open>a\<close> is accounted for: it was released or a live handle owns it.\<close>

definition tracked :: "addr \<Rightarrow> 'a state \<Rightarrow> bool" where
  "tracked a s = (a \<in> set (deleted s) \<or> owners a s \<noteq> [])"

text \<open>The counter of every live handle, read as a signed \<open>int\<close>, is the number of live
  handles bound to it.\<close>

definition count_matches :: "'a state \<Rightarrow> bool" where
  "count_matches s =
     (\<forall>(h, sp) \<in> set (vars s).
        case rcs s (reference sp) of
          None \<Rightarrow> False
        | Some rc \<Rightarrow> sint (count rc) = int (refcount (reference sp) (vars s)))"

text \<open>The count that is seen through the live handle \<open>h\<close>, as a signed \<open>int\<close>.\<close>

definition counter_of :: "hid \<Rightarrow> 'a state \<Rightarrow> int option" where
  "counter_of h s =
     (case map_of (vars s) h of
        None \<Rightarrow> None
      | Some sp \<Rightarrow>
          (case rcs s (reference sp) of None \<Rightarrow> None | Some rc \<Rightarrow> Some (sint (count rc))))"

text \<open>Three small states that programs reach from the empty state: one handle that
  owns a value; two handles that own a value each; two handles that share one value.\<close>

definition single_owner :: "unit state" where
  "single_owner = projr (run [Construct 0 ()] empty_state)"

definition two_handles :: "unit state" where
  "two_handles = projr (run [Construct 0 (), Construct 1 ()] empty_state)"

definition shared_pair :: "unit state" where
  "shared_pair = projr (run [Construct 0 (), Copy 1 0] empty_state)"

text \<open>What one statement must establish: the new state is consistent, its live handles
  are \<open>L\<close>, at most one handle was added and no value was lost track of.\<close>

definition step_ok :: "'a state \<Rightarrow> 'a state \<Rightarrow> hid set \<Rightarrow> bool" where
  "step_ok s s' L = (consistent s' \<and> fst ` set (vars s') = L \<and>
      length (vars s') \<le> Suc (length (vars s)) \<and> (\<forall>a. tracked a s \<longrightarrow> tracked a s'))"

section \<open>Auxiliary facts\<close>

lemma word32_of_nat_eq_0: "n < 2 ^ 32 \<Longrightarrow> ((of_nat n :: cint) = 0) = (n = 0)"
  using of_nat_neq_0 [of n, where 'a = 32] by auto

lemma sint32_of_nat: 
  assumes "n < 2 ^ 31" shows "sint (of_nat n :: cint) = int n"
proof -
  have "(of_nat n :: cint) = word_of_int (int n)" by simp
  then have "sint (of_nat n :: cint) = signed_take_bit 31 (int n)"
    by (simp only: sint_sbintrunc') simp
  also have "\<dots> = int n"
    using assms by (intro signed_take_bit_int_eq_self) auto
  finally show ?thesis .
qed

lemma refcount_append [simp]:
  "refcount r (vs @ [(h, sp)]) = refcount r vs + (if reference sp = r then 1 else 0)"
  by (simp add: refcount_def)

lemma refcount_Nil [simp]: "refcount r [] = 0"
  by (simp add: refcount_def)

lemma refcount_le_length: "refcount r vs \<le> length vs"
  by (simp add: refcount_def)

lemma refcount_pos: "(h, sp) \<in> set vs \<Longrightarrow> 0 < refcount (reference sp) vs"
  by (auto simp: refcount_def filter_empty_conv)

lemma refcount_zero_iff: "refcount r vs = 0 \<longleftrightarrow> (\<forall>(h, sp) \<in> set vs. reference sp \<noteq> r)"
  by (auto simp: refcount_def filter_empty_conv)

lemma refcount_delete:
  "distinct (map fst vs) \<Longrightarrow> map_of vs h = Some sp \<Longrightarrow>
   refcount r (AList.delete h vs) + (if reference sp = r then 1 else 0) = refcount r vs"
proof (induction vs)
  case Nil
  then show ?case by simp
next
  case (Cons x vs)
  obtain k v where x: "x = (k, v)" by (cases x)
  show ?case
  proof (cases "k = h")
    case True
    with Cons.prems x have "v = sp" by simp
    moreover from Cons.prems x True have "h \<notin> fst ` set vs" by simp
    then have "AList.delete h vs = vs" by (simp add: delete_id)
    ultimately show ?thesis using x True by (simp add: refcount_def)
  next
    case False
    with Cons x show ?thesis
      by (auto simp: refcount_def)
  qed
qed

lemma in_set_delete [simp]:
  "((k, v) \<in> set (AList.delete h vs)) = (k \<noteq> h \<and> (k, v) \<in> set vs)"
  by (auto simp: AList.delete_eq)

lemma in_set_update:
  assumes "distinct (map fst vs)"
  shows "((k, v) \<in> set (AList.update h new vs)) = (if k = h then v = new else (k, v) \<in> set vs)"
proof -
  have d: "distinct (map fst (AList.update h new vs))"
    using assms by (rule distinct_update)
  have "((k, v) \<in> set (AList.update h new vs)) = (map_of (AList.update h new vs) k = Some v)"
    using d by simp
  also have "\<dots> = (((map_of vs)(h \<mapsto> new)) k = Some v)"
    by (simp only: update_conv')
  also have "\<dots> = (if k = h then v = new else (k, v) \<in> set vs)"
    using assms by auto
  finally show ?thesis .
qed

lemma SP_raw_effect:
  "\<not> alive h s \<Longrightarrow>
   SP_raw h p s = Inr (s\<lparr>vars := vars s @ [(h, \<lparr>pData = p, reference = next_addr s\<rparr>)],
                        rcs := (rcs s)(next_addr s \<mapsto> \<lparr>count = 1\<rparr>),
                        next_addr := Suc (next_addr s)\<rparr>)"
  by (simp add: SP_raw_def new_RC_def ref_AddRef_def AddRef_def begin_lifetime_def)

lemma SP_default_raw: "SP_default h s = SP_raw h None s"
  by (simp add: SP_default_def SP_raw_def)

lemma SP_copy_effect:
  "\<not> alive h s \<Longrightarrow> map_of (vars s) src = Some sp \<Longrightarrow> rcs s (reference sp) = Some rc \<Longrightarrow>
   SP_copy h src s = Inr (s\<lparr>vars := vars s @ [(h, sp)],
                           rcs := (rcs s)(reference sp \<mapsto> rc\<lparr>count := count rc + 1\<rparr>)\<rparr>)"
  by (simp add: SP_copy_def ref_AddRef_def AddRef_def begin_lifetime_def)

lemma release_block_effect:
  "rcs s (reference this) = Some rc \<Longrightarrow>
   (case pData this of None \<Rightarrow> True | Some a \<Rightarrow> objs s a \<noteq> None) \<Longrightarrow>
   release_block this s =
     Inr (if count rc - 1 = 0
          then s\<lparr>rcs := (rcs s)(reference this := None),
                 objs := (case pData this of None \<Rightarrow> objs s | Some a \<Rightarrow> (objs s)(a := None)),
                 deleted := (case pData this of None \<Rightarrow> deleted s | Some a \<Rightarrow> a # deleted s)\<rparr>
          else s\<lparr>rcs := (rcs s)(reference this \<mapsto> rc\<lparr>count := count rc - 1\<rparr>)\<rparr>)"
  by (auto simp: release_block_def ref_Release_def Release_def delete_T_def delete_RC_def
      split: option.splits)

lemma owners_Nil_iff: "owners a s = [] \<longleftrightarrow> (\<forall>(h, sp) \<in> set (vars s). pData sp \<noteq> Some a)"
  by (auto simp: owners_def filter_empty_conv)

lemma counters_okI:
  "(\<And>h sp. (h, sp) \<in> set (vars s) \<Longrightarrow>
      reference sp < next_addr s \<and>
      (\<exists>rc. rcs s (reference sp) = Some rc \<and>
         count rc = of_nat (refcount (reference sp) (vars s)))) \<Longrightarrow> counters_ok s"
  unfolding counters_ok_def by fastforce

lemma counters_okD:
  "counters_ok s \<Longrightarrow> (h, sp) \<in> set (vars s) \<Longrightarrow>
     reference sp < next_addr s \<and>
     (\<exists>rc. rcs s (reference sp) = Some rc \<and>
        count rc = of_nat (refcount (reference sp) (vars s)))"
  unfolding counters_ok_def by (fastforce split: option.splits)

lemma bindings_okI:
  "(\<And>h sp h' sp'. (h, sp) \<in> set (vars s) \<Longrightarrow> (h', sp') \<in> set (vars s) \<Longrightarrow>
      (reference sp = reference sp' \<longrightarrow> pData sp = pData sp') \<and>
      (pData sp = pData sp' \<and> pData sp \<noteq> None \<longrightarrow> reference sp = reference sp')) \<Longrightarrow>
   bindings_ok s"
  unfolding bindings_ok_def by fast

lemma bindings_okD1:
  "bindings_ok s \<Longrightarrow> (h, sp) \<in> set (vars s) \<Longrightarrow> (h', sp') \<in> set (vars s) \<Longrightarrow>
   reference sp = reference sp' \<Longrightarrow> pData sp = pData sp'"
  unfolding bindings_ok_def by fast

lemma bindings_okD2:
  "bindings_ok s \<Longrightarrow> (h, sp) \<in> set (vars s) \<Longrightarrow> (h', sp') \<in> set (vars s) \<Longrightarrow>
   pData sp = Some a \<Longrightarrow> pData sp' = Some a \<Longrightarrow> reference sp = reference sp'"
  unfolding bindings_ok_def by fastforce

lemma payloads_okI:
  "(\<And>h sp a. (h, sp) \<in> set (vars s) \<Longrightarrow> pData sp = Some a \<Longrightarrow>
      a < next_addr s \<and> objs s a \<noteq> None) \<Longrightarrow> payloads_ok s"
  unfolding payloads_ok_def by (auto split: option.splits)

lemma payloads_okD:
  "payloads_ok s \<Longrightarrow> (h, sp) \<in> set (vars s) \<Longrightarrow> pData sp = Some a \<Longrightarrow>
     a < next_addr s \<and> objs s a \<noteq> None"
  unfolding payloads_ok_def by (auto split: option.splits)

lemma log_okD:
  "log_ok s \<Longrightarrow> a \<in> set (deleted s) \<Longrightarrow> a < next_addr s \<and> objs s a = None"
  unfolding log_ok_def by auto

lemma new_T_fields [simp]:
  "vars (snd (new_T v s)) = vars s"
  "rcs (snd (new_T v s)) = rcs s"
  "objs (snd (new_T v s)) = (objs s)(next_addr s \<mapsto> v)"
  "next_addr (snd (new_T v s)) = Suc (next_addr s)"
  "deleted (snd (new_T v s)) = deleted s"
  "fst (new_T v s) = next_addr s"
  by (simp_all add: new_T_def)

lemma new_T_consistent:
  assumes c: "consistent s"
  shows "consistent (snd (new_T v s))"
proof -
  let ?s = "snd (new_T v s)"
  from c have k: "keys_ok s" and co: "counters_ok s" and b: "bindings_ok s"
    and pl: "payloads_ok s" and l: "log_ok s"
    by (simp_all add: consistent_def)
  have 1: "keys_ok ?s" using k by (simp add: keys_ok_def)
  have 2: "counters_ok ?s"
  proof (rule counters_okI)
    fix h sp assume "(h, sp) \<in> set (vars ?s)"
    then have "(h, sp) \<in> set (vars s)" by simp
    from counters_okD [OF co this]
    show "reference sp < next_addr ?s \<and> (\<exists>rc. rcs ?s (reference sp) = Some rc \<and>
         count rc = of_nat (refcount (reference sp) (vars ?s)))"
      by auto
  qed
  have 3: "bindings_ok ?s" using b by (simp add: bindings_ok_def)
  have 4: "payloads_ok ?s"
  proof (rule payloads_okI)
    fix h sp a assume "(h, sp) \<in> set (vars ?s)" and a: "pData sp = Some a"
    then have "(h, sp) \<in> set (vars s)" by simp
    from payloads_okD [OF pl this a]
    show "a < next_addr ?s \<and> objs ?s a \<noteq> None" by auto
  qed
  have 5: "log_ok ?s"
    unfolding log_ok_def
  proof (intro conjI ballI)
    show "distinct (deleted ?s)" using l by (simp add: log_ok_def)
  next
    fix a assume "a \<in> set (deleted ?s)"
    then have "a \<in> set (deleted s)" by simp
    from log_okD [OF l this] show "a < next_addr ?s" by simp
  next
    fix a assume "a \<in> set (deleted ?s)"
    then have "a \<in> set (deleted s)" by simp
    from log_okD [OF l this] show "objs ?s a = None" by simp
  qed
  from 1 2 3 4 5 show ?thesis by (simp add: consistent_def)
qed

lemma SP_raw_consistent:
  assumes c: "consistent s" and h: "\<not> alive h s"
    and p: "case p of None \<Rightarrow> True | Some a \<Rightarrow> a < next_addr s \<and> objs s a \<noteq> None \<and> owners a s = []"
    and r: "SP_raw h p s = Inr s'"
  shows "consistent s'"
proof -
  let ?r = "next_addr s"
  let ?new = "\<lparr>pData = p, reference = ?r\<rparr>"
  have s': "s' = s\<lparr>vars := vars s @ [(h, ?new)],
                    rcs := (rcs s)(?r \<mapsto> \<lparr>count = 1\<rparr>), next_addr := Suc ?r\<rparr>"
    using r SP_raw_effect [OF h, of p] by simp
  from c have k: "keys_ok s" and co: "counters_ok s" and b: "bindings_ok s"
    and pl: "payloads_ok s" and l: "log_ok s"
    by (simp_all add: consistent_def)
  have fresh: "reference sp < ?r" if "(k, sp) \<in> set (vars s)" for k sp
    using counters_okD [OF co that] by simp
  have zero: "refcount ?r (vars s) = 0"
    unfolding refcount_zero_iff using fresh by fastforce
  have mem: "(k, sp) \<in> set (vars s') \<longleftrightarrow> (k, sp) \<in> set (vars s) \<or> (k, sp) = (h, ?new)" for k sp
    by (auto simp: s')
  have 1: "keys_ok s'"
    using k h by (simp add: s' keys_ok_def alive_def)
  have 2: "counters_ok s'"
  proof (rule counters_okI)
    fix k sp assume "(k, sp) \<in> set (vars s')"
    then consider "(k, sp) \<in> set (vars s)" | "sp = ?new"
      by (auto simp: mem)
    then show "reference sp < next_addr s' \<and>
        (\<exists>rc. rcs s' (reference sp) = Some rc \<and>
           count rc = of_nat (refcount (reference sp) (vars s')))"
    proof cases
      case 1
      from counters_okD [OF co 1] fresh [OF 1] show ?thesis by (auto simp: s')
    next
      case 2
      then show ?thesis by (simp add: s' zero)
    qed
  qed
  have unowned: "pData sp \<noteq> p \<or> p = None" if "(k, sp) \<in> set (vars s)" for k sp
    using p that by (cases p) (auto simp: owners_Nil_iff)
  have 3: "bindings_ok s'"
  proof (rule bindings_okI)
    fix k sp k' sp'
    assume "(k, sp) \<in> set (vars s')" and "(k', sp') \<in> set (vars s')"
    then consider "(k, sp) \<in> set (vars s)" "(k', sp') \<in> set (vars s)"
      | "(k, sp) \<in> set (vars s)" "sp' = ?new"
      | "sp = ?new" "(k', sp') \<in> set (vars s)"
      | "sp = ?new" "sp' = ?new"
      by (auto simp: mem)
    then show "(reference sp = reference sp' \<longrightarrow> pData sp = pData sp') \<and>
      (pData sp = pData sp' \<and> pData sp \<noteq> None \<longrightarrow> reference sp = reference sp')"
    proof cases
      case 1
      then show ?thesis using bindings_okD1 [OF b 1] b unfolding bindings_ok_def by fast
    next
      case 2
      then show ?thesis using fresh [OF 2(1)] unowned [OF 2(1)] by auto
    next
      case 3
      then show ?thesis using fresh [OF 3(2)] unowned [OF 3(2)] by auto
    next
      case 4
      then show ?thesis by simp
    qed
  qed
  have 4: "payloads_ok s'"
  proof (rule payloads_okI)
    fix k sp a assume "(k, sp) \<in> set (vars s')" and a: "pData sp = Some a"
    then consider "(k, sp) \<in> set (vars s)" | "sp = ?new"
      by (auto simp: mem)
    then show "a < next_addr s' \<and> objs s' a \<noteq> None"
    proof cases
      case 1
      from payloads_okD [OF pl 1 a] show ?thesis by (auto simp: s')
    next
      case 2
      with a p show ?thesis by (auto simp: s')
    qed
  qed
  have 5: "log_ok s'"
    using l unfolding log_ok_def s' by fastforce
  from 1 2 3 4 5 show ?thesis by (simp add: consistent_def)
qed

lemma alive_map_of: "alive h s \<longleftrightarrow> (\<exists>sp. map_of (vars s) h = Some sp)"
proof -
  have "alive h s \<longleftrightarrow> map_of (vars s) h \<noteq> None"
    by (simp add: alive_def map_of_eq_None_iff)
  then show ?thesis by auto
qed

lemma SP_copy_consistent:
  assumes c: "consistent s" and h: "\<not> alive h s" and src: "map_of (vars s) src = Some sp"
  shows "\<exists>rc. rcs s (reference sp) = Some rc \<and>
           SP_copy h src s = Inr (s\<lparr>vars := vars s @ [(h, sp)],
                  rcs := (rcs s)(reference sp \<mapsto> rc\<lparr>count := count rc + 1\<rparr>)\<rparr>) \<and>
           consistent (s\<lparr>vars := vars s @ [(h, sp)],
                  rcs := (rcs s)(reference sp \<mapsto> rc\<lparr>count := count rc + 1\<rparr>)\<rparr>)"
proof -
  from c have k: "keys_ok s" and co: "counters_ok s" and b: "bindings_ok s"
    and pl: "payloads_ok s" and l: "log_ok s"
    by (simp_all add: consistent_def)
  have in_s: "(src, sp) \<in> set (vars s)" using src by (rule map_of_SomeD)
  from counters_okD [OF co in_s] obtain rc where rc: "rcs s (reference sp) = Some rc"
    and cnt: "count rc = of_nat (refcount (reference sp) (vars s))" by auto
  let ?r = "reference sp"
  let ?s = "s\<lparr>vars := vars s @ [(h, sp)], rcs := (rcs s)(?r \<mapsto> rc\<lparr>count := count rc + 1\<rparr>)\<rparr>"
  have mem: "(k, x) \<in> set (vars ?s) \<longleftrightarrow> (k, x) \<in> set (vars s) \<or> (k, x) = (h, sp)" for k x
    by auto
  have 1: "keys_ok ?s"
    using k h by (simp add: keys_ok_def alive_def)
  have 2: "counters_ok ?s"
  proof (rule counters_okI)
    fix k x assume "(k, x) \<in> set (vars ?s)"
    then have "(k, x) \<in> set (vars s) \<or> x = sp" by auto
    then obtain k' where kx: "(k', x) \<in> set (vars s)" using in_s by auto
    from counters_okD [OF co kx] obtain rcx where rcx: "reference x < next_addr s"
      "rcs s (reference x) = Some rcx" "count rcx = of_nat (refcount (reference x) (vars s))"
      by auto
    show "reference x < next_addr ?s \<and>
        (\<exists>rc. rcs ?s (reference x) = Some rc \<and>
           count rc = of_nat (refcount (reference x) (vars ?s)))"
    proof (cases "reference x = ?r")
      case True
      with rcx rc cnt show ?thesis by simp
    next
      case False
      with rcx show ?thesis by simp
    qed
  qed
  have 3: "bindings_ok ?s"
  proof (rule bindings_okI)
    fix k x k' x'
    assume "(k, x) \<in> set (vars ?s)" and "(k', x') \<in> set (vars ?s)"
    then obtain j j' where "(j, x) \<in> set (vars s)" "(j', x') \<in> set (vars s)"
      using in_s by auto
    then show "(reference x = reference x' \<longrightarrow> pData x = pData x') \<and>
      (pData x = pData x' \<and> pData x \<noteq> None \<longrightarrow> reference x = reference x')"
      using b unfolding bindings_ok_def by fast
  qed
  have 4: "payloads_ok ?s"
  proof (rule payloads_okI)
    fix k x a assume "(k, x) \<in> set (vars ?s)" and a: "pData x = Some a"
    then obtain j where "(j, x) \<in> set (vars s)" using in_s by auto
    from payloads_okD [OF pl this a] show "a < next_addr ?s \<and> objs ?s a \<noteq> None" by simp
  qed
  have 5: "log_ok ?s"
    using l unfolding log_ok_def by simp
  have "consistent ?s" using 1 2 3 4 5 by (simp add: consistent_def)
  with rc SP_copy_effect [OF h src rc] show ?thesis by blast
qed

lemma release_block_vars:
  "release_block this s = Inr s1 \<Longrightarrow> vars s1 = vars s \<and> next_addr s1 = next_addr s"
  by (auto simp: release_block_def ref_Release_def Release_def delete_T_def delete_RC_def
      split: option.splits sum.splits if_splits prod.splits)

lemma SP_dtor_consistent:
  assumes c: "consistent s" and bound: "length (vars s) < 2 ^ 32"
    and h: "map_of (vars s) h = Some this"
  shows "\<exists>s'. SP_dtor h s = Inr s' \<and> consistent s' \<and> vars s' = AList.delete h (vars s) \<and>
           next_addr s' = next_addr s \<and> (\<forall>a. tracked a s \<longrightarrow> tracked a s')"
proof -
  from c have k: "keys_ok s" and co: "counters_ok s" and b: "bindings_ok s"
    and pl: "payloads_ok s" and l: "log_ok s"
    by (simp_all add: consistent_def)
  have in_s: "(h, this) \<in> set (vars s)" using h by (rule map_of_SomeD)
  let ?r = "reference this"
  let ?vs = "AList.delete h (vars s)"
  from counters_okD [OF co in_s] obtain rc where rc: "rcs s ?r = Some rc"
    and cnt: "count rc = of_nat (refcount ?r (vars s))" by auto
  have pay: "case pData this of None \<Rightarrow> True | Some a \<Rightarrow> objs s a \<noteq> None"
    using payloads_okD [OF pl in_s] by (auto split: option.splits)
  have dk: "distinct (map fst (vars s))" using k by (simp add: keys_ok_def)
  have rdel: "refcount r ?vs + (if ?r = r then 1 else 0) = refcount r (vars s)" for r
    using refcount_delete [OF dk h] by simp
  have npos: "0 < refcount ?r (vars s)" using refcount_pos [OF in_s] .
  have cnt1: "count rc - 1 = of_nat (refcount ?r ?vs)"
  proof -
    have "refcount ?r (vars s) = Suc (refcount ?r ?vs)" using rdel [of ?r] by simp
    then have "(of_nat (refcount ?r (vars s)) :: cint) = of_nat (refcount ?r ?vs) + 1"
      by simp
    with cnt show ?thesis by simp
  qed
  have small: "refcount ?r ?vs < 2 ^ 32"
    using rdel [of ?r] refcount_le_length [of ?r "vars s"] bound by simp
  have zero_iff: "count rc - 1 = 0 \<longleftrightarrow> refcount ?r ?vs = 0"
    using cnt1 word32_of_nat_eq_0 [OF small] by simp
  define s1 where "s1 = (if count rc - 1 = 0
          then s\<lparr>rcs := (rcs s)(?r := None),
                 objs := (case pData this of None \<Rightarrow> objs s | Some a \<Rightarrow> (objs s)(a := None)),
                 deleted := (case pData this of None \<Rightarrow> deleted s | Some a \<Rightarrow> a # deleted s)\<rparr>
          else s\<lparr>rcs := (rcs s)(?r \<mapsto> rc\<lparr>count := count rc - 1\<rparr>)\<rparr>)"
  have rb: "release_block this s = Inr s1"
    unfolding s1_def by (rule release_block_effect [OF rc pay])
  let ?s = "end_lifetime h s1"
  have dt: "SP_dtor h s = Inr ?s"
    by (simp add: SP_dtor_def h rb)
  have vs: "vars ?s = ?vs" and nx: "next_addr ?s = next_addr s"
    by (simp_all add: end_lifetime_def s1_def)
  have mem: "(j, x) \<in> set (vars ?s) \<longleftrightarrow> j \<noteq> h \<and> (j, x) \<in> set (vars s)" for j x
    by (simp add: vs)
  have gone: "reference x \<noteq> ?r \<and> pData x \<noteq> Some a"
    if z: "count rc - 1 = 0" and x: "(j, x) \<in> set (vars ?s)" and a: "pData this = Some a"
    for j x a
  proof -
    from z have "refcount ?r ?vs = 0" using zero_iff by blast
    with x have 1: "reference x \<noteq> ?r" by (auto simp: refcount_zero_iff vs)
    from x have xs: "(j, x) \<in> set (vars s)" by (simp add: mem)
    have "pData x \<noteq> Some a"
    proof
      assume "pData x = Some a"
      from bindings_okD2 [OF b xs in_s this a] 1 show False by simp
    qed
    with 1 show ?thesis by simp
  qed
  have gone_r: "reference x \<noteq> ?r"
    if z: "count rc - 1 = 0" and x: "(j, x) \<in> set (vars ?s)" for j x
  proof -
    from z have "refcount ?r ?vs = 0" using zero_iff by blast
    with x show ?thesis by (auto simp: refcount_zero_iff vs)
  qed
  have 1: "keys_ok ?s"
    using dk by (simp add: keys_ok_def vs distinct_delete)
  have 2: "counters_ok ?s"
  proof (rule counters_okI)
    fix j x assume jx: "(j, x) \<in> set (vars ?s)"
    then have xs: "(j, x) \<in> set (vars s)" by (simp add: mem)
    from counters_okD [OF co xs] obtain rcx where rcx: "reference x < next_addr s"
      "rcs s (reference x) = Some rcx" "count rcx = of_nat (refcount (reference x) (vars s))"
      by auto
    show "reference x < next_addr ?s \<and>
        (\<exists>rc. rcs ?s (reference x) = Some rc \<and>
           count rc = of_nat (refcount (reference x) (vars ?s)))"
    proof (cases "reference x = ?r")
      case True
      with gone_r [OF _ jx] have nz: "count rc - 1 \<noteq> 0" by auto
      with True rcx(1) cnt1 show ?thesis
        by (simp add: end_lifetime_def s1_def)
    next
      case False
      with rdel [of "reference x"] have "refcount (reference x) ?vs = refcount (reference x) (vars s)"
        by simp
      with False rcx show ?thesis
        by (simp add: end_lifetime_def s1_def)
    qed
  qed
  have 3: "bindings_ok ?s"
  proof (rule bindings_okI)
    fix j x j' x'
    assume "(j, x) \<in> set (vars ?s)" and "(j', x') \<in> set (vars ?s)"
    then have "(j, x) \<in> set (vars s)" "(j', x') \<in> set (vars s)"
      by (simp_all add: mem)
    then show "(reference x = reference x' \<longrightarrow> pData x = pData x') \<and>
      (pData x = pData x' \<and> pData x \<noteq> None \<longrightarrow> reference x = reference x')"
      using b unfolding bindings_ok_def by fast
  qed
  have 4: "payloads_ok ?s"
  proof (rule payloads_okI)
    fix j x a assume jx: "(j, x) \<in> set (vars ?s)" and a: "pData x = Some a"
    then have xs: "(j, x) \<in> set (vars s)" by (simp add: mem)
    from payloads_okD [OF pl xs a] have old: "a < next_addr s" "objs s a \<noteq> None" by auto
    show "a < next_addr ?s \<and> objs ?s a \<noteq> None"
    proof (cases "count rc - 1 = 0")
      case True
      with gone [OF True jx] a old show ?thesis
        by (auto simp: end_lifetime_def s1_def split: option.splits)
    next
      case False
      with old show ?thesis by (simp add: end_lifetime_def s1_def)
    qed
  qed
  have 5: "log_ok ?s"
  proof (cases "count rc - 1 = 0 \<and> pData this \<noteq> None")
    case True
    then obtain a where a: "pData this = Some a" by auto
    from payloads_okD [OF pl in_s a] have old: "a < next_addr s" "objs s a \<noteq> None" by auto
    with l have "a \<notin> set (deleted s)" by (auto dest: log_okD)
    with True a old l show ?thesis
      by (auto simp: log_ok_def end_lifetime_def s1_def)
  next
    case False
    with l show ?thesis
      by (auto simp: log_ok_def end_lifetime_def s1_def split: option.splits)
  qed
  have 6: "tracked a ?s" if t: "tracked a s" for a
  proof (cases "a \<in> set (deleted s)")
    case True
    then have "a \<in> set (deleted ?s)"
      by (auto simp: end_lifetime_def s1_def split: option.splits)
    then show ?thesis by (simp add: tracked_def)
  next
    case False
    with t have "owners a s \<noteq> []" by (simp add: tracked_def)
    then obtain j x where jx: "(j, x) \<in> set (vars s)" and xa: "pData x = Some a"
      by (auto simp: owners_Nil_iff)
    show ?thesis
    proof (cases "j = h")
      case jh: True
      with jx h dk have xt: "x = this" by simp
      show ?thesis
      proof (cases "count rc - 1 = 0")
        case True
        with xt xa have "a \<in> set (deleted ?s)"
          by (simp add: end_lifetime_def s1_def)
        then show ?thesis by (simp add: tracked_def)
      next
        case False
        then have "refcount ?r ?vs \<noteq> 0" using zero_iff by blast
        then have "\<not> (\<forall>(j, x) \<in> set ?vs. reference x \<noteq> ?r)"
          by (simp add: refcount_zero_iff)
        then obtain j' x' where other: "(j', x') \<in> set ?vs" "reference x' = ?r"
          by fast
        then have "(j', x') \<in> set (vars s)" by simp
        from bindings_okD1 [OF b this in_s other(2)] xt xa have "pData x' = Some a" by simp
        with other(1) have "owners a ?s \<noteq> []"
          by (auto simp: owners_Nil_iff vs)
        then show ?thesis by (simp add: tracked_def)
      qed
    next
      case False
      with jx xa have "owners a ?s \<noteq> []"
        by (auto simp: owners_Nil_iff mem)
      then show ?thesis by (simp add: tracked_def)
    qed
  qed
  have "consistent ?s" using 1 2 3 4 5 by (simp add: consistent_def)
  with dt vs nx 6 show ?thesis by blast
qed

lemma refcount_card:
  assumes "distinct (map fst vs)"
  shows "refcount r vs = card {x \<in> set vs. reference (snd x) = r}"
proof -
  have d: "distinct vs" using assms by (simp add: distinct_map)
  have "refcount r vs = length (filter (\<lambda>x. reference (snd x) = r) vs)"
    by (simp add: refcount_def case_prod_unfold)
  also have "\<dots> = card ({x. reference (snd x) = r} \<inter> set vs)"
    using d by (rule distinct_length_filter)
  also have "{x. reference (snd x) = r} \<inter> set vs = {x \<in> set vs. reference (snd x) = r}"
    by auto
  finally show ?thesis .
qed

lemma consistent_cong:
  assumes c: "consistent s" and k': "keys_ok s'" and v: "set (vars s') = set (vars s)"
    and eqs: "rcs s' = rcs s" "objs s' = objs s" "next_addr s' = next_addr s"
      "deleted s' = deleted s"
  shows "consistent s'"
proof -
  from c have k: "keys_ok s" and co: "counters_ok s" and b: "bindings_ok s"
    and pl: "payloads_ok s" and l: "log_ok s"
    by (simp_all add: consistent_def)
  have rc: "refcount r (vars s') = refcount r (vars s)" for r
    using k k' v by (simp add: keys_ok_def refcount_card)
  have 2: "counters_ok s'"
  proof (rule counters_okI)
    fix h sp assume "(h, sp) \<in> set (vars s')"
    then have "(h, sp) \<in> set (vars s)" by (simp add: v)
    from counters_okD [OF co this]
    show "reference sp < next_addr s' \<and> (\<exists>rc. rcs s' (reference sp) = Some rc \<and>
         count rc = of_nat (refcount (reference sp) (vars s')))"
      by (simp add: eqs rc)
  qed
  have 3: "bindings_ok s'"
    using b unfolding bindings_ok_def by (simp add: v)
  have 4: "payloads_ok s'"
  proof (rule payloads_okI)
    fix h sp a assume "(h, sp) \<in> set (vars s')" and a: "pData sp = Some a"
    then have "(h, sp) \<in> set (vars s)" by (simp add: v)
    from payloads_okD [OF pl this a]
    show "a < next_addr s' \<and> objs s' a \<noteq> None" by (simp add: eqs)
  qed
  have 5: "log_ok s'"
    using l unfolding log_ok_def by (simp add: eqs)
  from k' 2 3 4 5 show ?thesis by (simp add: consistent_def)
qed

lemma tracked_cong:
  "set (vars s') = set (vars s) \<Longrightarrow> deleted s' = deleted s \<Longrightarrow> tracked a s' = tracked a s"
  by (simp add: tracked_def owners_Nil_iff)

lemma SP_eta [simp]: "\<lparr>pData = pData sp, reference = reference sp\<rparr> = (sp :: SP)"
  by (cases sp) simp

lemma ref_AddRef_vars_irrelevant:
  "ref_AddRef r s = Inr s' \<Longrightarrow> ref_AddRef r (s\<lparr>vars := vs\<rparr>) = Inr (s'\<lparr>vars := vs\<rparr>)"
  by (auto simp: ref_AddRef_def split: option.splits)

lemma SP_assign_as_dtor_copy:
  assumes ne: "h \<noteq> src" and src: "map_of (vars s) src = Some sp"
    and d: "SP_dtor h s = Inr s1" and cp: "SP_copy h src s1 = Inr s2"
  shows "SP_assign h src s = Inr (s2\<lparr>vars := AList.update h sp (vars s)\<rparr>)"
proof -
  from d obtain this where h: "map_of (vars s) h = Some this"
    by (auto simp: SP_dtor_def split: option.splits)
  with d obtain s0 where rb: "release_block this s = Inr s0" and s1: "s1 = end_lifetime h s0"
    by (auto simp: SP_dtor_def split: sum.splits)
  from release_block_vars [OF rb] have v0: "vars s0 = vars s" by simp
  have v1: "vars s1 = AList.delete h (vars s)" by (simp add: s1 end_lifetime_def v0)
  have src1: "map_of (vars s1) src = Some sp"
    using ne src by (simp add: v1 delete_conv')
  from cp src1 obtain s3 where ar: "ref_AddRef (reference sp) s1 = Inr s3"
    and s2: "s2 = begin_lifetime h \<lparr>pData = pData sp, reference = reference sp\<rparr> s3"
    by (auto simp: SP_copy_def split: if_splits sum.splits)
  have "s1 = s0\<lparr>vars := AList.delete h (vars s)\<rparr>" by (simp add: s1 end_lifetime_def v0)
  with ar have "ref_AddRef (reference sp) (s0\<lparr>vars := AList.delete h (vars s)\<rparr>) = Inr s3" by simp
  from ref_AddRef_vars_irrelevant [OF this, of "AList.update h sp (vars s)"]
  have "ref_AddRef (reference sp) (s0\<lparr>vars := AList.update h sp (vars s)\<rparr>)
          = Inr (s3\<lparr>vars := AList.update h sp (vars s)\<rparr>)" by simp
  moreover have "alive src s" using src by (auto simp: alive_map_of)
  ultimately show ?thesis
    using ne h src rb by (simp add: SP_assign_def v0 s2 begin_lifetime_def)
qed

lemma tracked_mono:
  "set (vars s) \<subseteq> set (vars s') \<Longrightarrow> set (deleted s) \<subseteq> set (deleted s') \<Longrightarrow>
   tracked a s \<Longrightarrow> tracked a s'"
  by (auto simp: tracked_def owners_Nil_iff)

lemma keys_delete: "fst ` set (AList.delete h vs) = fst ` set vs - {h}"
  by (force simp: AList.delete_eq)

lemma keys_update: "h \<in> fst ` set vs \<Longrightarrow> fst ` set (AList.update h v vs) = fst ` set vs"
proof -
  assume "h \<in> fst ` set vs"
  then have "map fst (AList.update h v vs) = map fst vs" by (simp add: update_keys)
  then have "set (map fst (AList.update h v vs)) = set (map fst vs)" by simp
  then show ?thesis by (simp only: set_map)
qed

lemma length_update_alive:
  assumes "h \<in> fst ` set vs"
  shows "length (AList.update h v vs) = length vs"
proof -
  have "map fst (AList.update h v vs) = map fst vs" using assms by (simp add: update_keys)
  then have "length (map fst (AList.update h v vs)) = length (map fst vs)" by simp
  then show ?thesis by (simp only: length_map)
qed

lemma step_raw:
  assumes c: "consistent s" and h: "h \<notin> fst ` set (vars s)"
    and p: "case p of None \<Rightarrow> True | Some a \<Rightarrow> a < next_addr s \<and> objs s a \<noteq> None \<and> owners a s = []"
  shows "\<exists>s'. SP_raw h p s = Inr s' \<and> step_ok s s' (insert h (fst ` set (vars s)))"
proof -
  have na: "\<not> alive h s" using h by (simp add: alive_def)
  let ?s = "s\<lparr>vars := vars s @ [(h, \<lparr>pData = p, reference = next_addr s\<rparr>)],
             rcs := (rcs s)(next_addr s \<mapsto> \<lparr>count = 1\<rparr>), next_addr := Suc (next_addr s)\<rparr>"
  have e: "SP_raw h p s = Inr ?s" by (rule SP_raw_effect [OF na])
  have "consistent ?s" by (rule SP_raw_consistent [OF c na p e])
  moreover have "tracked a ?s" if "tracked a s" for a
    using that by (rule tracked_mono [rotated 2]) auto
  ultimately have "step_ok s ?s (insert h (fst ` set (vars s)))"
    by (auto simp: step_ok_def)
  with e show ?thesis by blast
qed

lemma step_construct:
  assumes c: "consistent s" and h: "h \<notin> fst ` set (vars s)"
  shows "\<exists>s'. exec (Construct h v) s = Inr s' \<and> step_ok s s' (insert h (fst ` set (vars s)))"
proof -
  let ?s1 = "snd (new_T v s)"
  let ?a = "next_addr s"
  have c1: "consistent ?s1" by (rule new_T_consistent [OF c])
  from c have pl: "payloads_ok s" by (simp add: consistent_def)
  have "owners ?a ?s1 = []"
    unfolding owners_Nil_iff
  proof (intro ballI, clarify)
    fix k sp assume "(k, sp) \<in> set (vars ?s1)" and a: "pData sp = Some ?a"
    then have "(k, sp) \<in> set (vars s)" by simp
    from payloads_okD [OF pl this a] show False by simp
  qed
  then have p: "case Some ?a of None \<Rightarrow> True
     | Some a \<Rightarrow> a < next_addr ?s1 \<and> objs ?s1 a \<noteq> None \<and> owners a ?s1 = []"
    by simp
  have h1: "h \<notin> fst ` set (vars ?s1)" using h by simp
  from step_raw [OF c1 h1 p] obtain s' where
    r: "SP_raw h (Some ?a) ?s1 = Inr s'" and ok: "step_ok ?s1 s' (insert h (fst ` set (vars ?s1)))"
    by blast
  have tr: "tracked a ?s1" if "tracked a s" for a
    using that by (rule tracked_mono [rotated 2]) auto
  have "step_ok s s' (insert h (fst ` set (vars s)))"
    using ok tr by (simp add: step_ok_def)
  moreover have "exec (Construct h v) s = Inr s'"
    using r by (simp add: new_T_def)
  ultimately show ?thesis by blast
qed

lemma step_copy:
  assumes c: "consistent s" and h: "h \<notin> fst ` set (vars s)" and src: "src \<in> fst ` set (vars s)"
  shows "\<exists>s'. SP_copy h src s = Inr s' \<and> step_ok s s' (insert h (fst ` set (vars s)))"
proof -
  have na: "\<not> alive h s" using h by (simp add: alive_def)
  from src obtain sp where sp: "map_of (vars s) src = Some sp"
    using alive_map_of [of src s] by (auto simp: alive_def)
  from SP_copy_consistent [OF c na sp] obtain rc where
    e: "SP_copy h src s = Inr (s\<lparr>vars := vars s @ [(h, sp)],
                  rcs := (rcs s)(reference sp \<mapsto> rc\<lparr>count := count rc + 1\<rparr>)\<rparr>)"
    and c': "consistent (s\<lparr>vars := vars s @ [(h, sp)],
                  rcs := (rcs s)(reference sp \<mapsto> rc\<lparr>count := count rc + 1\<rparr>)\<rparr>)"
    by blast
  let ?s = "s\<lparr>vars := vars s @ [(h, sp)],
                  rcs := (rcs s)(reference sp \<mapsto> rc\<lparr>count := count rc + 1\<rparr>)\<rparr>"
  have "tracked a ?s" if "tracked a s" for a
    using that by (rule tracked_mono [rotated 2]) auto
  with c' have "step_ok s ?s (insert h (fst ` set (vars s)))"
    by (auto simp: step_ok_def)
  with e show ?thesis by blast
qed

lemma step_dtor:
  assumes c: "consistent s" and bound: "length (vars s) < 2 ^ 32"
    and h: "h \<in> fst ` set (vars s)"
  shows "\<exists>s'. SP_dtor h s = Inr s' \<and> step_ok s s' (fst ` set (vars s) - {h}) \<and>
            vars s' = AList.delete h (vars s)"
proof -
  from h obtain this where t: "map_of (vars s) h = Some this"
    using alive_map_of [of h s] by (auto simp: alive_def)
  from SP_dtor_consistent [OF c bound t] obtain s' where
    "SP_dtor h s = Inr s'" "consistent s'" "vars s' = AList.delete h (vars s)"
    "\<forall>a. tracked a s \<longrightarrow> tracked a s'" by blast
  moreover have "length (AList.delete h (vars s)) \<le> Suc (length (vars s))"
    using length_delete_le [of h "vars s"] by simp
  ultimately show ?thesis
    by (auto simp: step_ok_def keys_delete simp del: in_set_delete)
qed

lemma step_assign:
  assumes c: "consistent s" and bound: "length (vars s) < 2 ^ 32"
    and h: "h \<in> fst ` set (vars s)" and src: "map_of (vars s) src = Some sp"
  shows "\<exists>s'. SP_assign h src s = Inr s' \<and> step_ok s s' (fst ` set (vars s)) \<and>
            vars s' = AList.update h sp (vars s)"
proof (cases "h = src")
  case True
  have al: "alive src s" using src by (auto simp: alive_map_of)
  have "SP_assign h src s = Inr s"
    using True src al by (simp add: SP_assign_def)
  moreover have "step_ok s s (fst ` set (vars s))"
    using c by (simp add: step_ok_def)
  moreover have "AList.update h sp (vars s) = vars s"
    using True src by (simp add: update_triv)
  ultimately show ?thesis by auto
next
  case False
  let ?L = "fst ` set (vars s)"
  from c have dk: "distinct (map fst (vars s))" by (simp add: consistent_def keys_ok_def)
  from step_dtor [OF c bound h] obtain s1 where
    d: "SP_dtor h s = Inr s1" and ok1: "step_ok s s1 (?L - {h})"
    and v1: "vars s1 = AList.delete h (vars s)" by blast
  from ok1 have c1: "consistent s1" and L1: "fst ` set (vars s1) = ?L - {h}"
    and t1: "\<And>a. tracked a s \<Longrightarrow> tracked a s1"
    by (simp_all add: step_ok_def)
  have h1: "h \<notin> fst ` set (vars s1)" by (simp add: L1)
  have na1: "\<not> alive h s1" using h1 by (simp add: alive_def)
  have src1: "map_of (vars s1) src = Some sp"
    using False src by (simp add: v1 delete_conv')
  from SP_copy_consistent [OF c1 na1 src1] obtain rc where
    cp: "SP_copy h src s1 = Inr (s1\<lparr>vars := vars s1 @ [(h, sp)],
                  rcs := (rcs s1)(reference sp \<mapsto> rc\<lparr>count := count rc + 1\<rparr>)\<rparr>)"
    and c2: "consistent (s1\<lparr>vars := vars s1 @ [(h, sp)],
                  rcs := (rcs s1)(reference sp \<mapsto> rc\<lparr>count := count rc + 1\<rparr>)\<rparr>)"
    by blast
  let ?s2 = "s1\<lparr>vars := vars s1 @ [(h, sp)],
                  rcs := (rcs s1)(reference sp \<mapsto> rc\<lparr>count := count rc + 1\<rparr>)\<rparr>"
  let ?s3 = "?s2\<lparr>vars := AList.update h sp (vars s)\<rparr>"
  have e: "SP_assign h src s = Inr ?s3"
    by (rule SP_assign_as_dtor_copy [OF False src d cp])
  have sets: "set (vars ?s3) = set (vars ?s2)"
  proof (rule set_eqI)
    fix x :: "hid \<times> SP"
    obtain k y where x: "x = (k, y)" by (cases x)
    show "x \<in> set (vars ?s3) \<longleftrightarrow> x \<in> set (vars ?s2)"
      unfolding x using in_set_update [OF dk, of k y h sp]
      by (auto simp: v1)
  qed
  have k3: "keys_ok ?s3"
    using distinct_update [OF dk, of h sp] by (simp add: keys_ok_def)
  have c3: "consistent ?s3"
    by (rule consistent_cong [OF c2 k3 sets]) simp_all
  have t2: "tracked a ?s2" if "tracked a s1" for a
    using that by (rule tracked_mono [rotated 2]) auto
  have t3: "tracked a ?s3" if "tracked a s" for a
  proof -
    have "tracked a ?s3 = tracked a ?s2" by (rule tracked_cong [OF sets]) simp
    with t2 [OF t1 [OF that]] show ?thesis by simp
  qed
  have "step_ok s ?s3 ?L"
    using c3 t3 keys_update [OF h, of sp] length_update_alive [OF h, of sp]
    by (simp add: step_ok_def)
  with e show ?thesis by auto
qed

lemma exec_step:
  assumes c: "consistent s" and bound: "length (vars s) < 2 ^ 32"
    and sc: "scoped (fst ` set (vars s)) (c # cs)"
  shows "\<exists>s'. exec c s = Inr s' \<and> consistent s' \<and> scoped (fst ` set (vars s')) cs \<and>
           length (vars s') \<le> Suc (length (vars s)) \<and> (\<forall>a. tracked a s \<longrightarrow> tracked a s')"
proof (cases c)
  case (Default h)
  with sc have h: "h \<notin> fst ` set (vars s)" and sc': "scoped (insert h (fst ` set (vars s))) cs"
    by simp_all
  from step_raw [OF assms(1) h, of None] sc' show ?thesis
    by (auto simp: Default SP_default_raw step_ok_def)
next
  case (Construct h v)
  with sc have h: "h \<notin> fst ` set (vars s)" and sc': "scoped (insert h (fst ` set (vars s))) cs"
    by simp_all
  from step_construct [OF assms(1) h, of v] sc' show ?thesis
    unfolding Construct step_ok_def by metis
next
  case (Copy h src)
  with sc have h: "h \<notin> fst ` set (vars s)" and src: "src \<in> fst ` set (vars s)"
    and sc': "scoped (insert h (fst ` set (vars s))) cs"
    by simp_all
  from step_copy [OF assms(1) h src] sc' show ?thesis
    by (auto simp: Copy step_ok_def)
next
  case (Assign h src)
  with sc have h: "h \<in> fst ` set (vars s)" and src: "src \<in> fst ` set (vars s)"
    and sc': "scoped (fst ` set (vars s)) cs"
    by simp_all
  from src obtain sp where sp: "map_of (vars s) src = Some sp"
    using alive_map_of [of src s] by (auto simp: alive_def)
  from step_assign [OF assms(1) bound h sp] sc' show ?thesis
    by (auto simp: Assign step_ok_def)
next
  case (Destroy h)
  with sc have h: "h \<in> fst ` set (vars s)" and sc': "scoped (fst ` set (vars s) - {h}) cs"
    by simp_all
  from step_dtor [OF assms(1) bound h] sc' show ?thesis
    by (auto simp: Destroy step_ok_def)
qed

lemma run_consistent:
  "consistent s \<Longrightarrow> scoped (fst ` set (vars s)) cs \<Longrightarrow> length (vars s) + length cs < 2 ^ 32 \<Longrightarrow>
   \<exists>s'. run cs s = Inr s' \<and> consistent s' \<and> length (vars s') \<le> length (vars s) + length cs \<and>
        (\<forall>a. tracked a s \<longrightarrow> tracked a s')"
proof (induction cs arbitrary: s)
  case Nil
  then show ?case by simp
next
  case (Cons c cs)
  from Cons.prems have b: "length (vars s) < 2 ^ 32" by simp
  from exec_step [OF Cons.prems(1) b Cons.prems(2)] obtain s1 where
    e: "exec c s = Inr s1" and c1: "consistent s1" and sc1: "scoped (fst ` set (vars s1)) cs"
    and l1: "length (vars s1) \<le> Suc (length (vars s))"
    and t1: "\<forall>a. tracked a s \<longrightarrow> tracked a s1"
    by blast
  from l1 Cons.prems(3) have b1: "length (vars s1) + length cs < 2 ^ 32" by simp
  from Cons.IH [OF c1 sc1 b1] obtain s' where
    "run cs s1 = Inr s'" "consistent s'" "length (vars s') \<le> length (vars s1) + length cs"
    "\<forall>a. tracked a s1 \<longrightarrow> tracked a s'"
    by blast
  with e l1 t1 show ?case by auto
qed

lemma map_of_snoc_fresh:
  "h \<notin> fst ` set vs \<Longrightarrow> map_of (vs @ [(h, x)]) k = (if k = h then Some x else map_of vs k)"
  by (induction vs) auto

lemma delete_snoc_fresh:
  "h \<notin> fst ` set vs \<Longrightarrow> AList.delete h (vs @ [(h, x)]) = vs"
  by (simp add: AList.delete_eq filter_id_conv) force

lemma SP_default_fresh:
  assumes "\<not> alive h s"
  shows "\<exists>s'. SP_default h s = Inr s' \<and>
           map_of (vars s') h = Some \<lparr>pData = None, reference = next_addr s\<rparr>"
  using assms
  by (simp add: SP_default_raw SP_raw_effect map_of_snoc_fresh alive_def del: map_of_append)

lemma SP_dtor_effect:
  assumes "map_of (vars s) h = Some this" and "rcs s (reference this) = Some rc"
    and "case pData this of None \<Rightarrow> True | Some a \<Rightarrow> objs s a \<noteq> None"
  shows "SP_dtor h s =
     Inr (end_lifetime h (if count rc - 1 = 0
          then s\<lparr>rcs := (rcs s)(reference this := None),
                 objs := (case pData this of None \<Rightarrow> objs s | Some a \<Rightarrow> (objs s)(a := None)),
                 deleted := (case pData this of None \<Rightarrow> deleted s | Some a \<Rightarrow> a # deleted s)\<rparr>
          else s\<lparr>rcs := (rcs s)(reference this \<mapsto> rc\<lparr>count := count rc - 1\<rparr>)\<rparr>))"
  using assms(1) release_block_effect [OF assms(2,3)] by (simp add: SP_dtor_def)

lemma SP_assign_effect:
  assumes "map_of (vars s) h = Some this" and "rcs s (reference this) = Some rc"
    and "case pData this of None \<Rightarrow> True | Some a \<Rightarrow> objs s a \<noteq> None"
    and "map_of (vars s) src = Some sp" and "h \<noteq> src"
  shows "SP_assign h src s =
     ref_AddRef (reference sp)
       ((if count rc - 1 = 0
          then s\<lparr>rcs := (rcs s)(reference this := None),
                 objs := (case pData this of None \<Rightarrow> objs s | Some a \<Rightarrow> (objs s)(a := None)),
                 deleted := (case pData this of None \<Rightarrow> deleted s | Some a \<Rightarrow> a # deleted s)\<rparr>
          else s\<lparr>rcs := (rcs s)(reference this \<mapsto> rc\<lparr>count := count rc - 1\<rparr>)\<rparr>)
        \<lparr>vars := AList.update h sp (vars s)\<rparr>)"
proof -
  have "alive src s" using assms(4) by (auto simp: alive_map_of)
  then show ?thesis
    using assms(1,4,5) release_block_effect [OF assms(2,3)]
    by (simp add: SP_assign_def)
qed

lemma release_block_rcs:
  assumes rb: "release_block this s = Inr s1"
  shows "\<exists>rc. rcs s (reference this) = Some rc \<and>
           (if fst (Release rc) = 0 then rcs s1 (reference this) = None
            else rcs s1 (reference this) = Some (snd (Release rc)))"
proof (cases "rcs s (reference this)")
  case None
  with rb show ?thesis by (simp add: release_block_def ref_Release_def)
next
  case (Some rc)
  show ?thesis
  proof (cases "count rc - 1 = 0")
    case False
    with rb Some have "s1 = s\<lparr>rcs := (rcs s)(reference this \<mapsto> rc\<lparr>count := count rc - 1\<rparr>)\<rparr>"
      by (simp add: release_block_def ref_Release_def Release_def)
    with Some False show ?thesis by (simp add: Release_def)
  next
    case True
    with rb Some obtain s2 where "delete_T (pData this) (s\<lparr>rcs := (rcs s)(reference this \<mapsto> rc\<lparr>count := count rc - 1\<rparr>)\<rparr>) = Inr s2"
      and s1: "s1 = delete_RC (reference this) s2"
      by (cases "delete_T (pData this) (s\<lparr>rcs := (rcs s)(reference this \<mapsto> rc\<lparr>count := count rc - 1\<rparr>)\<rparr>)")
        (auto simp: release_block_def ref_Release_def Release_def)
    with Some True show ?thesis by (simp add: Release_def delete_RC_def)
  qed
qed

lemma SP_assign_steps:
  assumes e: "SP_assign h src s = Inr s'" and t: "map_of (vars s) h = Some this"
    and sp: "map_of (vars s) src = Some sp" and ne: "h \<noteq> src"
  shows "\<exists>s1. release_block this s = Inr s1 \<and>
           ref_AddRef (reference sp) (s1\<lparr>vars := AList.update h sp (vars s)\<rparr>) = Inr s'"
proof -
  have al: "alive src s" using sp by (auto simp: alive_map_of)
  from e t al ne have e': "(case release_block this s of
                 Inl e \<Rightarrow> Inl e
               | Inr s1 \<Rightarrow>
                   (case map_of (vars s1) src of
                      None \<Rightarrow> Inl OutOfLifetime
                    | Some sp \<Rightarrow>
                        ref_AddRef (reference sp)
                          (s1\<lparr>vars := AList.update h
                                \<lparr>pData = pData sp, reference = reference sp\<rparr> (vars s1)\<rparr>))) = Inr s'"
    by (simp add: SP_assign_def)
  then obtain s1 where rb: "release_block this s = Inr s1"
    by (cases "release_block this s") auto
  from release_block_vars [OF rb] have v1: "vars s1 = vars s" by simp
  from e' rb sp v1 have "ref_AddRef (reference sp) (s1\<lparr>vars := AList.update h sp (vars s)\<rparr>) = Inr s'"
    by simp
  with rb show ?thesis by blast
qed

lemma read_through_cong:
  "map_of (vars s2) h = map_of (vars s) h \<Longrightarrow> objs s2 = objs s \<Longrightarrow>
   read_through h s2 = read_through h s \<and> op_deref h s2 = op_deref h s"
  by (simp add: read_through_def op_deref_def load_def split: option.splits)

lemma consistent_empty: "consistent empty_state"
  by (simp add: consistent_def keys_ok_def counters_ok_def bindings_ok_def payloads_ok_def
      log_ok_def empty_state_def)

lemma consistent_count_matches:
  assumes c: "consistent s" and b: "length (vars s) < 2 ^ 31"
  shows "count_matches s"
  unfolding count_matches_def
proof (intro ballI, clarify)
  fix h sp assume in_s: "(h, sp) \<in> set (vars s)"
  from c have co: "counters_ok s" by (simp add: consistent_def)
  from counters_okD [OF co in_s] obtain rc where rc: "rcs s (reference sp) = Some rc"
    and cnt: "count rc = of_nat (refcount (reference sp) (vars s))" by auto
  have "refcount (reference sp) (vars s) < 2 ^ 31"
    using refcount_le_length [of "reference sp" "vars s"] b by simp
  from sint32_of_nat [OF this] cnt rc
  show "case rcs s (reference sp) of None \<Rightarrow> False
        | Some rc \<Rightarrow> sint (count rc) = int (refcount (reference sp) (vars s))"
    by simp
qed

lemma count_list_distinct: "distinct xs \<Longrightarrow> count_list xs a = (if a \<in> set xs then 1 else 0)"
  by (induction xs) auto

lemma released_iff_unowned:
  assumes c: "consistent s" and t: "tracked a s"
  shows "(a \<in> set (deleted s)) = (owners a s = [])"
proof
  assume d: "a \<in> set (deleted s)"
  from c have pl: "payloads_ok s" and l: "log_ok s" by (simp_all add: consistent_def)
  from log_okD [OF l d] have gone: "objs s a = None" by simp
  show "owners a s = []"
    unfolding owners_Nil_iff
  proof (intro ballI, clarify)
    fix h sp assume "(h, sp) \<in> set (vars s)" and "pData sp = Some a"
    from payloads_okD [OF pl this] gone show False by simp
  qed
next
  assume "owners a s = []"
  with t show "a \<in> set (deleted s)" by (simp add: tracked_def)
qed

lemma release_count:
  assumes c: "consistent s" and t: "tracked a s"
  shows "count_list (deleted s) a = (if owners a s = [] then 1 else 0)"
proof -
  from c have "distinct (deleted s)" by (simp add: consistent_def log_ok_def)
  from count_list_distinct [OF this, of a] released_iff_unowned [OF c t]
  show ?thesis by simp
qed

lemma exec_Inr_scoped: "exec c s = Inr s' \<Longrightarrow> scoped (fst ` set (vars s)) [c]"
proof (cases c)
  case (Default h)
  assume "exec c s = Inr s'"
  with Default show ?thesis by (auto simp: SP_default_def alive_def split: if_splits)
next
  case (Construct h v)
  assume "exec c s = Inr s'"
  with Construct show ?thesis
    by (auto simp: SP_raw_def alive_def new_T_def split: if_splits)
next
  case (Copy h src)
  assume "exec c s = Inr s'"
  with Copy have "\<not> alive h s" "map_of (vars s) src \<noteq> None"
    by (auto simp: SP_copy_def split: if_splits option.splits)
  with Copy show ?thesis by (simp add: alive_def map_of_eq_None_iff)
next
  case (Assign h src)
  assume "exec c s = Inr s'"
  with Assign have "map_of (vars s) h \<noteq> None" "alive src s"
    by (auto simp: SP_assign_def split: if_splits option.splits)
  with Assign show ?thesis by (simp add: alive_def map_of_eq_None_iff)
next
  case (Destroy h)
  assume "exec c s = Inr s'"
  with Destroy have "map_of (vars s) h \<noteq> None"
    by (auto simp: SP_dtor_def split: option.splits)
  with Destroy show ?thesis by (simp add: map_of_eq_None_iff)
qed

lemma in_set_update_other:
  "k \<noteq> h \<Longrightarrow> (k, x) \<in> set vs \<Longrightarrow> (k, x) \<in> set (AList.update h new vs)"
  by (induction vs) auto

lemma release_block_deleted:
  assumes rb: "release_block this s = Inr s1"
    and a: "a \<in> set (deleted s1)" "a \<notin> set (deleted s)"
  shows "pData this = Some a"
proof (cases "rcs s (reference this)")
  case None
  with rb show ?thesis by (simp add: release_block_def ref_Release_def)
next
  case (Some rc)
  show ?thesis
  proof (cases "count rc - 1 = 0")
    case False
    with rb Some have "s1 = s\<lparr>rcs := (rcs s)(reference this \<mapsto> rc\<lparr>count := count rc - 1\<rparr>)\<rparr>"
      by (simp add: release_block_def ref_Release_def Release_def)
    with a show ?thesis by simp
  next
    case True
    show ?thesis
    proof (cases "pData this")
      case None
      with rb Some True have "deleted s1 = deleted s"
        by (auto simp: release_block_def ref_Release_def Release_def delete_T_def delete_RC_def)
      with a show ?thesis by simp
    next
      case (Some b)
      show ?thesis
      proof (cases "objs s b")
        case None
        with rb \<open>rcs s (reference this) = Some rc\<close> True Some show ?thesis
          by (simp add: release_block_def ref_Release_def Release_def delete_T_def)
      next
        case (Some v)
        with rb \<open>rcs s (reference this) = Some rc\<close> True \<open>pData this = Some b\<close>
        have "deleted s1 = b # deleted s"
          by (auto simp: release_block_def ref_Release_def Release_def delete_T_def delete_RC_def)
        with a \<open>pData this = Some b\<close> show ?thesis by simp
      qed
    qed
  qed
qed

lemma ref_AddRef_frame:
  "ref_AddRef r s = Inr s' \<Longrightarrow> deleted s' = deleted s \<and> vars s' = vars s \<and> objs s' = objs s"
  by (auto simp: ref_AddRef_def split: option.splits)

lemma exec_deleted:
  assumes e: "exec c s = Inr s'" and a: "a \<in> set (deleted s')" "a \<notin> set (deleted s)"
  shows "\<exists>h this. map_of (vars s) h = Some this \<and> pData this = Some a \<and>
           (c = Destroy h \<or> (\<exists>src. c = Assign h src)) \<and>
           (\<forall>k x. k \<noteq> h \<longrightarrow> (k, x) \<in> set (vars s) \<longrightarrow> (k, x) \<in> set (vars s'))"
proof (cases c)
  case (Default h)
  with e have "deleted s' = deleted s"
    by (auto simp: SP_default_def new_RC_def ref_AddRef_def begin_lifetime_def split: if_splits)
  with a show ?thesis by simp
next
  case (Construct h v)
  with e have "deleted s' = deleted s"
    by (auto simp: SP_raw_def new_RC_def new_T_def ref_AddRef_def begin_lifetime_def
        split: if_splits)
  with a show ?thesis by simp
next
  case (Copy h src)
  with e have "deleted s' = deleted s"
    by (auto simp: SP_copy_def ref_AddRef_def begin_lifetime_def
        split: if_splits option.splits)
  with a show ?thesis by simp
next
  case (Assign h src)
  with e obtain this where t: "map_of (vars s) h = Some this"
    by (auto simp: SP_assign_def split: option.splits)
  have ne: "h \<noteq> src"
  proof
    assume "h = src"
    with e Assign t have "s' = s" by (auto simp: SP_assign_def split: if_splits)
    with a show False by simp
  qed
  have al: "alive src s"
  proof (rule ccontr)
    assume "\<not> alive src s"
    with e Assign t show False by (simp add: SP_assign_def)
  qed
  from e Assign t al ne have e': "(case release_block this s of
                 Inl e \<Rightarrow> Inl e
               | Inr s1 \<Rightarrow>
                   (case map_of (vars s1) src of
                      None \<Rightarrow> Inl OutOfLifetime
                    | Some sp \<Rightarrow>
                        ref_AddRef (reference sp)
                          (s1\<lparr>vars := AList.update h
                                \<lparr>pData = pData sp, reference = reference sp\<rparr> (vars s1)\<rparr>))) = Inr s'"
    by (simp add: SP_assign_def)
  then obtain s1 where rb: "release_block this s = Inr s1"
    by (cases "release_block this s") auto
  with e' obtain sp where "map_of (vars s1) src = Some sp"
    and ar: "ref_AddRef (reference sp) (s1\<lparr>vars := AList.update h sp (vars s1)\<rparr>) = Inr s'"
    by (cases "map_of (vars s1) src") auto
  from ref_AddRef_frame [OF ar] have d: "deleted s' = deleted s1"
    and v: "vars s' = AList.update h sp (vars s1)" by simp_all
  from release_block_vars [OF rb] have v1: "vars s1 = vars s" by simp
  from release_block_deleted [OF rb] a d have "pData this = Some a" by simp
  moreover have "\<forall>k x. k \<noteq> h \<longrightarrow> (k, x) \<in> set (vars s) \<longrightarrow> (k, x) \<in> set (vars s')"
    by (simp add: v v1 in_set_update_other)
  ultimately show ?thesis using t Assign by blast
next
  case (Destroy h)
  with e obtain this where t: "map_of (vars s) h = Some this"
    by (auto simp: SP_dtor_def split: option.splits)
  with e Destroy obtain s1 where rb: "release_block this s = Inr s1"
    and s': "s' = end_lifetime h s1"
    by (cases "release_block this s") (auto simp: SP_dtor_def)
  from release_block_vars [OF rb] have v1: "vars s1 = vars s" by simp
  from release_block_deleted [OF rb] a s' have "pData this = Some a"
    by (simp add: end_lifetime_def)
  moreover have "\<forall>k x. k \<noteq> h \<longrightarrow> (k, x) \<in> set (vars s) \<longrightarrow> (k, x) \<in> set (vars s')"
    by (simp add: s' end_lifetime_def v1)
  ultimately show ?thesis using t Destroy by blast
qed

lemma distinct_singleton: "distinct xs \<Longrightarrow> set xs = {h} \<Longrightarrow> xs = [h]"
proof (cases xs)
  case Nil
  assume "set xs = {h}"
  with Nil show ?thesis by simp
next
  case (Cons x ys)
  assume d: "distinct xs" and s: "set xs = {h}"
  from s Cons have x: "x = h" and sub: "set ys \<subseteq> {h}" by auto
  from d Cons x have "h \<notin> set ys" by simp
  with sub have "ys = []" by (cases ys) auto
  with Cons x show ?thesis by simp
qed

lemma last_owner_triggers:
  assumes c: "consistent s" and b: "length (vars s) < 2 ^ 32"
    and e: "exec c s = Inr s'" and a: "a \<in> set (deleted s')" "a \<notin> set (deleted s)"
  shows "\<exists>h. owners a s = [h] \<and> (c = Destroy h \<or> (\<exists>src. c = Assign h src))"
proof -
  from exec_deleted [OF e a] obtain h this where t: "map_of (vars s) h = Some this"
    and p: "pData this = Some a" and cc: "c = Destroy h \<or> (\<exists>src. c = Assign h src)"
    and keep: "\<And>k x. k \<noteq> h \<Longrightarrow> (k, x) \<in> set (vars s) \<Longrightarrow> (k, x) \<in> set (vars s')"
    by blast
  from exec_step [OF c b exec_Inr_scoped [OF e]] obtain s2 where
    "exec c s = Inr s2" "consistent s2" by blast
  with e have c': "consistent s'" by simp
  then have pl': "payloads_ok s'" and l': "log_ok s'" by (simp_all add: consistent_def)
  from log_okD [OF l' a(1)] have gone: "objs s' a = None" by simp
  from c have dk: "distinct (map fst (vars s))" by (simp add: consistent_def keys_ok_def)
  have only: "k = h" if "k \<in> set (owners a s)" for k
  proof (rule ccontr)
    assume kh: "k \<noteq> h"
    from that obtain x where kx: "(k, x) \<in> set (vars s)" and xa: "pData x = Some a"
      by (auto simp: owners_def)
    from payloads_okD [OF pl' keep [OF kh kx] xa] gone show False by simp
  qed
  have "(h, this) \<in> set (vars s)" using t by (rule map_of_SomeD)
  with p have "(h, this) \<in> set (filter (\<lambda>(h, sp). pData sp = Some a) (vars s))" by simp
  from imageI [OF this, of fst] have "h \<in> set (owners a s)" by (simp add: owners_def)
  with only have "set (owners a s) = {h}" by blast
  moreover have "distinct (owners a s)"
    unfolding owners_def using dk by (rule distinct_map_filter)
  ultimately have "owners a s = [h]" by (intro distinct_singleton)
  with cc show ?thesis by blast
qed

lemma run_from_empty:
  fixes cs :: "'a stmt list"
  assumes sc: "scoped {} cs" and b: "length cs < 2 ^ 31"
  shows "\<exists>s. run cs empty_state = Inr s \<and> consistent s \<and> length (vars s) \<le> length cs \<and>
           (\<forall>a. tracked a (empty_state :: 'a state) \<longrightarrow> tracked a s)"
proof -
  have v: "vars (empty_state :: 'a state) = []" by (simp add: empty_state_def)
  have sc': "scoped (fst ` set (vars (empty_state :: 'a state))) cs" using sc by (simp add: v)
  have b': "length (vars (empty_state :: 'a state)) + length cs < 2 ^ 32" using b by (simp add: v)
  from run_consistent [OF consistent_empty sc' b'] show ?thesis by (simp add: v)
qed

lemma refcount_two:
  assumes dk: "distinct (map fst vs)" and x: "map_of vs p = Some x" and y: "map_of vs q = Some y"
    and pq: "p \<noteq> q" and r: "reference x = reference y"
  shows "2 \<le> refcount (reference x) vs"
proof -
  have "(q, y) \<in> set vs" using y by (rule map_of_SomeD)
  with pq have "(q, y) \<in> set (AList.delete p vs)" by simp
  from refcount_pos [OF this] r have "0 < refcount (reference x) (AList.delete p vs)" by simp
  with refcount_delete [OF dk x, of "reference x"] show ?thesis by simp
qed

lemma shared_counter_survives:
  assumes c: "consistent s" and b: "length (vars s) < 2 ^ 31"
    and x: "map_of (vars s) p = Some x" and y: "map_of (vars s) q = Some y"
    and pq: "p \<noteq> q" and r: "reference x = reference y"
  shows "\<exists>rc. rcs s (reference x) = Some rc \<and> 2 \<le> sint (count rc) \<and> count rc - 1 \<noteq> 0 \<and>
           release_block x s =
             Inr (s\<lparr>rcs := (rcs s)(reference x \<mapsto> rc\<lparr>count := count rc - 1\<rparr>)\<rparr>)"
proof -
  from c have dk: "distinct (map fst (vars s))" and co: "counters_ok s" and pl: "payloads_ok s"
    by (simp_all add: consistent_def keys_ok_def)
  have in_s: "(p, x) \<in> set (vars s)" using x by (rule map_of_SomeD)
  from counters_okD [OF co in_s] obtain rc where rc: "rcs s (reference x) = Some rc"
    and cnt: "count rc = of_nat (refcount (reference x) (vars s))" by auto
  let ?n = "refcount (reference x) (vars s)"
  have two: "2 \<le> ?n" by (rule refcount_two [OF dk x y pq r])
  have small: "?n < 2 ^ 31" using refcount_le_length [of "reference x" "vars s"] b by simp
  from sint32_of_nat [OF small] cnt two have s2: "2 \<le> sint (count rc)" by simp
  have "?n = Suc (?n - 1)" using two by simp
  then have "(of_nat ?n :: cint) = of_nat (?n - 1) + 1" by (metis of_nat_Suc add.commute)
  with cnt have c1: "count rc - 1 = of_nat (?n - 1)" by simp
  have "?n - 1 < 2 ^ 32" using small by simp
  from word32_of_nat_eq_0 [OF this] c1 two have nz: "count rc - 1 \<noteq> 0" by simp
  have pay: "case pData x of None \<Rightarrow> True | Some a \<Rightarrow> objs s a \<noteq> None"
    using payloads_okD [OF pl in_s] by (auto split: option.splits)
  from release_block_effect [OF rc pay] nz
  have "release_block x s = Inr (s\<lparr>rcs := (rcs s)(reference x \<mapsto> rc\<lparr>count := count rc - 1\<rparr>)\<rparr>)"
    by simp
  with rc s2 nz show ?thesis by blast
qed

lemma assign_same_binding:
  assumes c: "consistent s" and b: "length (vars s) < 2 ^ 31"
    and x: "map_of (vars s) p = Some x" and y: "map_of (vars s) q = Some y"
    and r: "reference x = reference y"
  shows "SP_assign p q s = Inr s"
proof (cases "p = q")
  case True
  have "alive q s" using y by (auto simp: alive_map_of)
  with True x show ?thesis by (simp add: SP_assign_def)
next
  case False
  from c have b': "bindings_ok s" by (simp add: consistent_def)
  have "(p, x) \<in> set (vars s)" "(q, y) \<in> set (vars s)"
    using x y by (auto dest: map_of_SomeD)
  from bindings_okD1 [OF b' this r] r have xy: "y = x" by simp
  from shared_counter_survives [OF c b x y False r] obtain rc where
    rc: "rcs s (reference x) = Some rc" and nz: "count rc - 1 \<noteq> 0"
    and rb: "release_block x s =
             Inr (s\<lparr>rcs := (rcs s)(reference x \<mapsto> rc\<lparr>count := count rc - 1\<rparr>)\<rparr>)"
    by blast
  have al: "alive q s" using y by (auto simp: alive_map_of)
  have u: "AList.update p x (vars s) = vars s" using x by (rule update_triv)
  have m: "(rcs s)(reference x \<mapsto> rc) = rcs s" using rc by (rule map_upd_triv)
  show ?thesis
    using x y al False rb xy u m
    by (simp add: SP_assign_def ref_AddRef_def AddRef_def)
qed

lemma dtor_of_sharer:
  assumes c: "consistent s" and b: "length (vars s) < 2 ^ 31"
    and x: "map_of (vars s) p = Some x" and y: "map_of (vars s) q = Some y"
    and pq: "p \<noteq> q" and r: "reference x = reference y"
  shows "\<exists>s'. SP_dtor p s = Inr s' \<and> map_of (vars s') q = Some y \<and> objs s' = objs s \<and>
           deleted s' = deleted s"
proof -
  from shared_counter_survives [OF c b x y pq r] obtain rc where
    rb: "release_block x s =
             Inr (s\<lparr>rcs := (rcs s)(reference x \<mapsto> rc\<lparr>count := count rc - 1\<rparr>)\<rparr>)"
    by blast
  let ?s = "end_lifetime p (s\<lparr>rcs := (rcs s)(reference x \<mapsto> rc\<lparr>count := count rc - 1\<rparr>)\<rparr>)"
  have "SP_dtor p s = Inr ?s" using x rb by (simp add: SP_dtor_def)
  moreover have "map_of (vars ?s) q = Some y"
    using y pq by (simp add: end_lifetime_def delete_conv')
  moreover have "objs ?s = objs s" "deleted ?s = deleted s"
    by (simp_all add: end_lifetime_def)
  ultimately show ?thesis by blast
qed

lemmas eval_defs = exec.simps run.simps new_T_def SP_raw_def SP_default_def SP_copy_def SP_dtor_def
  SP_assign_def release_block_def new_RC_def ref_AddRef_def ref_Release_def AddRef_def
  Release_def delete_T_def delete_RC_def begin_lifetime_def end_lifetime_def alive_def
  empty_state_def

lemmas consistent_defs = consistent_def keys_ok_def counters_ok_def bindings_ok_def
  payloads_ok_def log_ok_def refcount_def

lemma exec_Construct_empty:
  "exec (Construct p v) (empty_state :: 'a state) =
     Inr \<lparr>vars = [(p, \<lparr>pData = Some 0, reference = 1\<rparr>)], rcs = [1 \<mapsto> \<lparr>count = 1\<rparr>],
          objs = [0 \<mapsto> v], next_addr = 2, deleted = []\<rparr>"
  by (simp add: eval_defs)

lemma scenario_C:
  assumes pq: "p \<noteq> q"
  shows "run [Construct p v1, Construct q v2, Assign p q] (empty_state :: 'a state) =
     Inr \<lparr>vars = [(p, \<lparr>pData = Some 2, reference = 3\<rparr>), (q, \<lparr>pData = Some 2, reference = 3\<rparr>)],
          rcs = [3 \<mapsto> \<lparr>count = 2\<rparr>], objs = [2 \<mapsto> v2], next_addr = 4, deleted = [0]\<rparr>"
proof -
  have 1: "exec (Construct p v1) (empty_state :: 'a state) =
     Inr \<lparr>vars = [(p, \<lparr>pData = Some 0, reference = 1\<rparr>)], rcs = [1 \<mapsto> \<lparr>count = 1\<rparr>],
          objs = [0 \<mapsto> v1], next_addr = 2, deleted = []\<rparr>"
    by (rule exec_Construct_empty)
  have 2: "exec (Construct q v2) \<lparr>vars = [(p, \<lparr>pData = Some 0, reference = 1\<rparr>)],
          rcs = [1 \<mapsto> \<lparr>count = 1\<rparr>], objs = [0 \<mapsto> v1], next_addr = 2, deleted = []\<rparr> =
     Inr \<lparr>vars = [(p, \<lparr>pData = Some 0, reference = 1\<rparr>), (q, \<lparr>pData = Some 2, reference = 3\<rparr>)],
          rcs = [1 \<mapsto> \<lparr>count = 1\<rparr>, 3 \<mapsto> \<lparr>count = 1\<rparr>], objs = [0 \<mapsto> v1, 2 \<mapsto> v2],
          next_addr = 4, deleted = []\<rparr>"
    using pq by (simp add: eval_defs numeral_eq_Suc)
  have 3: "exec (Assign p q) \<lparr>vars = [(p, \<lparr>pData = Some 0, reference = 1\<rparr>),
             (q, \<lparr>pData = Some 2, reference = 3\<rparr>)],
          rcs = [1 \<mapsto> \<lparr>count = 1\<rparr>, 3 \<mapsto> \<lparr>count = 1\<rparr>], objs = [0 \<mapsto> v1, 2 \<mapsto> v2],
          next_addr = 4, deleted = []\<rparr> =
     Inr \<lparr>vars = [(p, \<lparr>pData = Some 2, reference = 3\<rparr>), (q, \<lparr>pData = Some 2, reference = 3\<rparr>)],
          rcs = [3 \<mapsto> \<lparr>count = 2\<rparr>], objs = [2 \<mapsto> v2], next_addr = 4, deleted = [0]\<rparr>"
    using pq by (auto simp: eval_defs fun_eq_iff)
  show ?thesis by (simp only: run.simps 1 2 3 sum.case)
qed

lemma single_owner_eq:
  "single_owner = \<lparr>vars = [(0, \<lparr>pData = Some 0, reference = 1\<rparr>)],
     rcs = [1 \<mapsto> \<lparr>count = 1\<rparr>], objs = [0 \<mapsto> ()], next_addr = 2, deleted = []\<rparr>"
  by (simp add: single_owner_def eval_defs)

lemma two_handles_eq:
  "two_handles = \<lparr>vars = [(0, \<lparr>pData = Some 0, reference = 1\<rparr>), (1, \<lparr>pData = Some 2, reference = 3\<rparr>)],
     rcs = [1 \<mapsto> \<lparr>count = 1\<rparr>, 3 \<mapsto> \<lparr>count = 1\<rparr>], objs = [0 \<mapsto> (), 2 \<mapsto> ()],
     next_addr = 4, deleted = []\<rparr>"
  by (simp add: two_handles_def eval_defs numeral_eq_Suc)

lemma shared_pair_eq:
  "shared_pair = \<lparr>vars = [(0, \<lparr>pData = Some 0, reference = 1\<rparr>), (1, \<lparr>pData = Some 0, reference = 1\<rparr>)],
     rcs = [1 \<mapsto> \<lparr>count = 2\<rparr>], objs = [0 \<mapsto> ()], next_addr = 2, deleted = []\<rparr>"
  by (simp add: shared_pair_def eval_defs)

lemma consistent_single_owner: "consistent single_owner"
  by (simp add: single_owner_eq consistent_defs)

lemma consistent_two_handles: "consistent two_handles"
  by (simp add: two_handles_eq consistent_defs)

lemma consistent_shared_pair: "consistent shared_pair"
  by (simp add: shared_pair_eq consistent_defs)

text \<open>How the handles that point to a value change with each statement, and what a
  handle that points to it sees.\<close>

lemma mem_owners_iff:
  "k \<in> set (owners a s) \<longleftrightarrow> (\<exists>x. (k, x) \<in> set (vars s) \<and> pData x = Some a)"
  by (force simp: owners_def)

lemma tracked_lt:
  assumes c: "consistent s" and t: "tracked a s"
  shows "a < next_addr s"
proof (cases "a \<in> set (deleted s)")
  case True
  from c have "log_ok s" by (simp add: consistent_def)
  from log_okD [OF this True] show ?thesis by simp
next
  case False
  with t have "owners a s \<noteq> []" by (simp add: tracked_def)
  then obtain k x where kx: "(k, x) \<in> set (vars s)" and xa: "pData x = Some a"
    by (auto simp: owners_Nil_iff)
  from c have "payloads_ok s" by (simp add: consistent_def)
  from payloads_okD [OF this kx xa] show ?thesis by simp
qed

lemma owner_iff_field:
  assumes dk: "distinct (map fst (vars s))" and m: "map_of (vars s) k = Some x"
  shows "k \<in> set (owners a s) \<longleftrightarrow> pData x = Some a"
proof
  assume "k \<in> set (owners a s)"
  then obtain y where ky: "(k, y) \<in> set (vars s)" and ya: "pData y = Some a"
    by (auto simp: mem_owners_iff)
  have "(k, x) \<in> set (vars s)" using m by (rule map_of_SomeD)
  from eq_key_imp_eq_value [OF dk this ky] ya show "pData x = Some a" by simp
next
  assume "pData x = Some a"
  moreover have "(k, x) \<in> set (vars s)" using m by (rule map_of_SomeD)
  ultimately show "k \<in> set (owners a s)" by (auto simp: mem_owners_iff)
qed

lemma owners_deref:
  assumes c: "consistent s"
  shows "h \<in> set (owners a s) \<longleftrightarrow> op_deref h s = Inr (Some a)"
proof -
  from c have dk: "distinct (map fst (vars s))" by (simp add: consistent_def keys_ok_def)
  show ?thesis
  proof (cases "map_of (vars s) h")
    case None
    then have "h \<notin> fst ` set (vars s)" by (simp add: map_of_eq_None_iff)
    then have "h \<notin> set (owners a s)" by (force simp: mem_owners_iff)
    with None show ?thesis by (simp add: op_deref_def)
  next
    case (Some x)
    have "h \<in> set (owners a s) \<longleftrightarrow> pData x = Some a"
      by (rule owner_iff_field [OF dk Some])
    with Some show ?thesis by (simp add: op_deref_def)
  qed
qed

lemma owners_read:
  assumes c: "consistent s" and h: "h \<in> set (owners a s)"
  shows "\<exists>w. read_through h s = Inr w"
proof -
  from h obtain x where hx: "(h, x) \<in> set (vars s)" and xa: "pData x = Some a"
    by (auto simp: mem_owners_iff)
  from c have "payloads_ok s" by (simp add: consistent_def)
  from payloads_okD [OF this hx xa] obtain w where w: "objs s a = Some w" by auto
  from owners_deref [OF c] h have "op_deref h s = Inr (Some a)" by simp
  with w show ?thesis by (simp add: read_through_def load_def)
qed

lemma exec_owners:
  assumes c: "consistent s" and b: "length (vars s) < 2 ^ 32" and t: "tracked a s"
    and e: "exec c s = Inr s'"
  shows "k \<in> set (owners a s') \<longleftrightarrow>
     (case c of
        Default h \<Rightarrow> k \<in> set (owners a s)
      | Construct h w \<Rightarrow> k \<in> set (owners a s)
      | Copy h src \<Rightarrow> if k = h then src \<in> set (owners a s) else k \<in> set (owners a s)
      | Assign h src \<Rightarrow> if k = h then src \<in> set (owners a s) else k \<in> set (owners a s)
      | Destroy h \<Rightarrow> k \<noteq> h \<and> k \<in> set (owners a s))"
proof -
  from c have dk: "distinct (map fst (vars s))" by (simp add: consistent_def keys_ok_def)
  have own: "src \<in> set (owners a s) \<longleftrightarrow> pData sp = Some a"
    if "map_of (vars s) src = Some sp" for src sp
    by (rule owner_iff_field [OF dk that])
  have dead: "h \<notin> set (owners a s)" if "h \<notin> fst ` set (vars s)" for h
    using that by (force simp: mem_owners_iff)
  from exec_Inr_scoped [OF e] have sc: "scoped (fst ` set (vars s)) [c]" .
  show ?thesis
  proof (cases c)
    case (Default h)
    with sc have hk: "h \<notin> fst ` set (vars s)" by simp
    then have "\<not> alive h s" by (simp add: alive_def)
    from SP_raw_effect [OF this, of None] e Default
    have "vars s' = vars s @ [(h, \<lparr>pData = None, reference = next_addr s\<rparr>)]"
      by (auto simp: SP_default_raw)
    then show ?thesis using Default by (auto simp: mem_owners_iff)
  next
    case (Construct h w)
    with sc have hk: "h \<notin> fst ` set (vars s)" by simp
    then have "\<not> alive h (snd (new_T w s))" by (simp add: alive_def)
    from SP_raw_effect [OF this, of "Some (next_addr s)"] e Construct
    have "vars s' = vars s @ [(h, \<lparr>pData = Some (next_addr s), reference = Suc (next_addr s)\<rparr>)]"
      by (auto simp: new_T_def)
    moreover from tracked_lt [OF c t] have "a \<noteq> next_addr s" by simp
    ultimately show ?thesis using Construct by (auto simp: mem_owners_iff)
  next
    case (Copy h src)
    with sc have hk: "h \<notin> fst ` set (vars s)" and sk: "src \<in> fst ` set (vars s)" by simp_all
    have na: "\<not> alive h s" using hk by (simp add: alive_def)
    from sk obtain sp where sp: "map_of (vars s) src = Some sp"
      using alive_map_of [of src s] by (auto simp: alive_def)
    from SP_copy_consistent [OF c na sp] e Copy
    have v: "vars s' = vars s @ [(h, sp)]" by auto
    show ?thesis
    proof (cases "k = h")
      case True
      with v dead [OF hk] own [OF sp] Copy show ?thesis by (auto simp: mem_owners_iff)
    next
      case False
      with v Copy show ?thesis by (auto simp: mem_owners_iff)
    qed
  next
    case (Assign h src)
    with sc have hk: "h \<in> fst ` set (vars s)" and sk: "src \<in> fst ` set (vars s)" by simp_all
    from sk obtain sp where sp: "map_of (vars s) src = Some sp"
      using alive_map_of [of src s] by (auto simp: alive_def)
    from step_assign [OF c b hk sp] e Assign
    have v: "vars s' = AList.update h sp (vars s)" by auto
    have "k \<in> set (owners a s') \<longleftrightarrow>
        (\<exists>x. (if k = h then x = sp else (k, x) \<in> set (vars s)) \<and> pData x = Some a)"
      unfolding mem_owners_iff v by (simp add: in_set_update [OF dk])
    also have "\<dots> \<longleftrightarrow> (if k = h then src \<in> set (owners a s) else k \<in> set (owners a s))"
      using own [OF sp] by (auto simp: mem_owners_iff)
    finally show ?thesis using Assign by simp
  next
    case (Destroy h)
    with sc have hk: "h \<in> fst ` set (vars s)" by simp
    from step_dtor [OF c b hk] e Destroy
    have v: "vars s' = AList.delete h (vars s)" by auto
    then show ?thesis using Destroy by (auto simp: mem_owners_iff)
  qed
qed

lemma assign_deref:
  assumes c: "consistent s" and b: "length (vars s) < 2 ^ 32"
    and e: "exec (Assign h src) s = Inr s'"
  shows "op_deref h s' = op_deref src s"
proof -
  from exec_Inr_scoped [OF e] have hk: "h \<in> fst ` set (vars s)"
    and sk: "src \<in> fst ` set (vars s)" by simp_all
  from sk obtain sp where sp: "map_of (vars s) src = Some sp"
    using alive_map_of [of src s] by (auto simp: alive_def)
  from step_assign [OF c b hk sp] e
  have v: "vars s' = AList.update h sp (vars s)" by auto
  then have "map_of (vars s') h = Some sp" by (simp add: update_conv')
  with sp show ?thesis by (simp add: op_deref_def)
qed

lemma scenario_B:
  assumes rp: "r \<noteq> p"
  shows "run [Construct p v, Default r, Assign r p, Destroy p] (empty_state :: 'a state) =
     Inr \<lparr>vars = [(r, \<lparr>pData = Some 0, reference = 1\<rparr>)], rcs = [1 \<mapsto> \<lparr>count = 1\<rparr>],
          objs = [0 \<mapsto> v], next_addr = 3, deleted = []\<rparr>"
    and "exec (Destroy r) (\<lparr>vars = [(r, \<lparr>pData = Some 0, reference = 1\<rparr>)],
          rcs = [1 \<mapsto> \<lparr>count = 1\<rparr>], objs = [0 \<mapsto> v], next_addr = 3, deleted = []\<rparr> :: 'a state) =
     Inr \<lparr>vars = [], rcs = Map.empty, objs = Map.empty, next_addr = 3, deleted = [0]\<rparr>"
proof -
  have 1: "exec (Construct p v) (empty_state :: 'a state) =
     Inr \<lparr>vars = [(p, \<lparr>pData = Some 0, reference = 1\<rparr>)], rcs = [1 \<mapsto> \<lparr>count = 1\<rparr>],
          objs = [0 \<mapsto> v], next_addr = 2, deleted = []\<rparr>"
    by (rule exec_Construct_empty)
  have 2: "exec (Default r) (\<lparr>vars = [(p, \<lparr>pData = Some 0, reference = 1\<rparr>)],
          rcs = [1 \<mapsto> \<lparr>count = 1\<rparr>], objs = [0 \<mapsto> v], next_addr = 2, deleted = []\<rparr> :: 'a state) =
     Inr \<lparr>vars = [(p, \<lparr>pData = Some 0, reference = 1\<rparr>), (r, \<lparr>pData = None, reference = 2\<rparr>)],
          rcs = [1 \<mapsto> \<lparr>count = 1\<rparr>, 2 \<mapsto> \<lparr>count = 1\<rparr>], objs = [0 \<mapsto> v], next_addr = 3,
          deleted = []\<rparr>"
    using rp by (simp add: eval_defs numeral_eq_Suc)
  have 3: "exec (Assign r p) (\<lparr>vars = [(p, \<lparr>pData = Some 0, reference = 1\<rparr>),
             (r, \<lparr>pData = None, reference = 2\<rparr>)],
          rcs = [1 \<mapsto> \<lparr>count = 1\<rparr>, 2 \<mapsto> \<lparr>count = 1\<rparr>], objs = [0 \<mapsto> v], next_addr = 3,
          deleted = []\<rparr> :: 'a state) =
     Inr \<lparr>vars = [(p, \<lparr>pData = Some 0, reference = 1\<rparr>), (r, \<lparr>pData = Some 0, reference = 1\<rparr>)],
          rcs = [1 \<mapsto> \<lparr>count = 2\<rparr>], objs = [0 \<mapsto> v], next_addr = 3, deleted = []\<rparr>"
    using rp by (auto simp: eval_defs fun_eq_iff)
  have 4: "exec (Destroy p) (\<lparr>vars = [(p, \<lparr>pData = Some 0, reference = 1\<rparr>),
             (r, \<lparr>pData = Some 0, reference = 1\<rparr>)],
          rcs = [1 \<mapsto> \<lparr>count = 2\<rparr>], objs = [0 \<mapsto> v], next_addr = 3, deleted = []\<rparr> :: 'a state) =
     Inr \<lparr>vars = [(r, \<lparr>pData = Some 0, reference = 1\<rparr>)], rcs = [1 \<mapsto> \<lparr>count = 1\<rparr>],
          objs = [0 \<mapsto> v], next_addr = 3, deleted = []\<rparr>"
    using rp by (auto simp: eval_defs fun_eq_iff)
  show "run [Construct p v, Default r, Assign r p, Destroy p] (empty_state :: 'a state) =
     Inr \<lparr>vars = [(r, \<lparr>pData = Some 0, reference = 1\<rparr>)], rcs = [1 \<mapsto> \<lparr>count = 1\<rparr>],
          objs = [0 \<mapsto> v], next_addr = 3, deleted = []\<rparr>"
    by (simp only: run.simps 1 2 3 4 sum.case)
  show "exec (Destroy r) (\<lparr>vars = [(r, \<lparr>pData = Some 0, reference = 1\<rparr>)],
          rcs = [1 \<mapsto> \<lparr>count = 1\<rparr>], objs = [0 \<mapsto> v], next_addr = 3, deleted = []\<rparr> :: 'a state) =
     Inr \<lparr>vars = [], rcs = Map.empty, objs = Map.empty, next_addr = 3, deleted = [0]\<rparr>"
    by (auto simp: eval_defs fun_eq_iff)
qed

section \<open>The claims\<close>

subsection \<open>One release, by the last handle\<close>

text \<open>
  Claim C1. A program starts with \<open>SP<T> p(new T(v))\<close> and goes on with any statements
  that respect scoping (fewer than \<open>2^31\<close> of them, so that no counter overflows). It runs
  without a fault, and at every point the value of \<open>p\<close> has been released once if no live
  handle points to it and not at all otherwise; once every handle is gone it has been
  released exactly once. The statement that releases it is the destruction, or the
  reassignment, of the one handle that still pointed to it. The order of the statements,
  and so of the destructions, is arbitrary.

  The handles that point to the value are those through which \<open>operator->\<close> returns its
  address, and each of them can read it. A default or raw-pointer declaration leaves them
  as they are; a duplicate \<open>SP<T> h(src)\<close> and a reassignment \<open>h = src\<close> make \<open>h\<close> point to the
  value exactly when \<open>src\<close> does, and leave the other handles as they are; a destruction
  removes the destroyed handle only. After \<open>h = src\<close> the handle \<open>h\<close> returns the pointer
  that \<open>src\<close> returned.

  Two programs show reassignment on both sides. After \<open>SP<T> r; r = p;\<close> and the end of
  \<open>p\<close>, nothing has been released and \<open>r\<close> reads \<open>v\<close>; the end of \<open>r\<close> then releases the
  value. After \<open>SP<T> q(new T(w)); p = q;\<close> the value of \<open>p\<close> has been released and \<open>p\<close>
  reads \<open>w\<close>.
\<close>

theorem single_release:
  fixes cs :: "'a stmt list"
  assumes sc: "scoped {} (Construct p v # cs)" and b: "length cs < 2 ^ 31 - 1"
  shows "\<exists>s. run (Construct p v # cs) empty_state = Inr s \<and>
           count_list (deleted s) (fst (new_T v (empty_state :: 'a state))) =
             (if owners (fst (new_T v (empty_state :: 'a state))) s = [] then 1 else 0) \<and>
           (vars s = [] \<longrightarrow>
              count_list (deleted s) (fst (new_T v (empty_state :: 'a state))) = 1) \<and>
           (\<forall>c s'. exec c s = Inr s' \<and>
                fst (new_T v (empty_state :: 'a state)) \<notin> set (deleted s) \<and>
                fst (new_T v (empty_state :: 'a state)) \<in> set (deleted s') \<longrightarrow>
                (\<exists>h. owners (fst (new_T v (empty_state :: 'a state))) s = [h] \<and>
                     (c = Destroy h \<or> (\<exists>src. c = Assign h src)))) \<and>
           (\<forall>h. h \<in> set (owners (fst (new_T v (empty_state :: 'a state))) s) \<longleftrightarrow>
                op_deref h s = Inr (Some (fst (new_T v (empty_state :: 'a state))))) \<and>
           (\<forall>h. h \<in> set (owners (fst (new_T v (empty_state :: 'a state))) s) \<longrightarrow>
                (\<exists>w. read_through h s = Inr w)) \<and>
           (\<forall>c s' k. exec c s = Inr s' \<longrightarrow>
              (k \<in> set (owners (fst (new_T v (empty_state :: 'a state))) s') \<longleftrightarrow>
                 (case c of
                    Default h \<Rightarrow> k \<in> set (owners (fst (new_T v (empty_state :: 'a state))) s)
                  | Construct h w \<Rightarrow>
                      k \<in> set (owners (fst (new_T v (empty_state :: 'a state))) s)
                  | Copy h src \<Rightarrow>
                      if k = h then src \<in> set (owners (fst (new_T v (empty_state :: 'a state))) s)
                      else k \<in> set (owners (fst (new_T v (empty_state :: 'a state))) s)
                  | Assign h src \<Rightarrow>
                      if k = h then src \<in> set (owners (fst (new_T v (empty_state :: 'a state))) s)
                      else k \<in> set (owners (fst (new_T v (empty_state :: 'a state))) s)
                  | Destroy h \<Rightarrow>
                      k \<noteq> h \<and> k \<in> set (owners (fst (new_T v (empty_state :: 'a state))) s)))) \<and>
           (\<forall>h src s'. exec (Assign h src) s = Inr s' \<longrightarrow> op_deref h s' = op_deref src s) \<and>
           (\<forall>r. r \<noteq> p \<longrightarrow>
              (\<exists>s1 s2. run [Construct p v, Default r, Assign r p, Destroy p] empty_state = Inr s1 \<and>
                 deleted s1 = [] \<and>
                 op_deref r s1 = Inr (Some (fst (new_T v (empty_state :: 'a state)))) \<and>
                 read_through r s1 = Inr v \<and>
                 exec (Destroy r) s1 = Inr s2 \<and>
                 deleted s2 = [fst (new_T v (empty_state :: 'a state))])) \<and>
           (\<forall>q w. q \<noteq> p \<longrightarrow>
              (\<exists>s1. run [Construct p v, Construct q w, Assign p q] empty_state = Inr s1 \<and>
                 deleted s1 = [fst (new_T v (empty_state :: 'a state))] \<and>
                 read_through p s1 = Inr w))"
proof -
  let ?s0 = "\<lparr>vars = [(p, \<lparr>pData = Some 0, reference = 1\<rparr>)], rcs = [1 \<mapsto> \<lparr>count = 1\<rparr>],
          objs = [0 \<mapsto> v], next_addr = 2, deleted = []\<rparr> :: 'a state"
  have a0: "fst (new_T v (empty_state :: 'a state)) = 0" by (simp add: empty_state_def)
  have e0: "exec (Construct p v) (empty_state :: 'a state) = Inr ?s0"
    by (rule exec_Construct_empty)
  have v0: "vars (empty_state :: 'a state) = []" by (simp add: empty_state_def)
  have "scoped (fst ` set (vars (empty_state :: 'a state))) (Construct p v # cs)"
    using sc by (simp add: v0)
  from exec_step [OF consistent_empty _ this] e0 have c0: "consistent ?s0"
    by (auto simp: v0)
  have t0: "tracked 0 ?s0" by (simp add: tracked_def owners_def)
  have sc0: "scoped (fst ` set (vars ?s0)) cs" using sc by simp
  have b0: "length (vars ?s0) + length cs < 2 ^ 32" using b by simp
  from run_consistent [OF c0 sc0 b0] obtain s where r: "run cs ?s0 = Inr s"
    and c: "consistent s" and l: "length (vars s) \<le> length (vars ?s0) + length cs"
    and t: "\<forall>a. tracked a ?s0 \<longrightarrow> tracked a s" by blast
  from t t0 have tr: "tracked 0 s" by blast
  from l b have bs: "length (vars s) < 2 ^ 32" by simp
  have r': "run (Construct p v # cs) empty_state = Inr s"
    using e0 r by simp
  have 1: "count_list (deleted s) 0 = (if owners 0 s = [] then 1 else 0)"
    by (rule release_count [OF c tr])
  have 2: "\<exists>h. owners 0 s = [h] \<and> (c = Destroy h \<or> (\<exists>src. c = Assign h src))"
    if "exec c s = Inr s'" "0 \<notin> set (deleted s)" "0 \<in> set (deleted s')" for c s'
    using last_owner_triggers [OF c bs that(1) that(3) that(2)] .
  have 3: "vars s = [] \<longrightarrow> count_list (deleted s) 0 = 1"
    using 1 by (simp add: owners_def)
  have 4: "h \<in> set (owners 0 s) \<longleftrightarrow> op_deref h s = Inr (Some 0)" for h
    by (rule owners_deref [OF c])
  have 5: "\<exists>w. read_through h s = Inr w" if "h \<in> set (owners 0 s)" for h
    by (rule owners_read [OF c that])
  have 6: "k \<in> set (owners 0 s') \<longleftrightarrow>
     (case c of
        Default h \<Rightarrow> k \<in> set (owners 0 s)
      | Construct h w \<Rightarrow> k \<in> set (owners 0 s)
      | Copy h src \<Rightarrow> if k = h then src \<in> set (owners 0 s) else k \<in> set (owners 0 s)
      | Assign h src \<Rightarrow> if k = h then src \<in> set (owners 0 s) else k \<in> set (owners 0 s)
      | Destroy h \<Rightarrow> k \<noteq> h \<and> k \<in> set (owners 0 s))"
    if "exec c s = Inr s'" for c s' k
    by (rule exec_owners [OF c bs tr that])
  have 7: "op_deref h s' = op_deref src s" if "exec (Assign h src) s = Inr s'" for h src s'
    by (rule assign_deref [OF c bs that])
  have 8: "\<exists>s1 s2. run [Construct p v, Default r, Assign r p, Destroy p] empty_state = Inr s1 \<and>
                 deleted s1 = [] \<and> op_deref r s1 = Inr (Some 0) \<and> read_through r s1 = Inr v \<and>
                 exec (Destroy r) s1 = Inr s2 \<and> deleted s2 = [0]" if "r \<noteq> p" for r
  proof -
    let ?S1 = "\<lparr>vars = [(r, \<lparr>pData = Some 0, reference = 1\<rparr>)], rcs = [1 \<mapsto> \<lparr>count = 1\<rparr>],
          objs = [0 \<mapsto> v], next_addr = 3, deleted = []\<rparr> :: 'a state"
    let ?S2 = "\<lparr>vars = [], rcs = Map.empty, objs = Map.empty, next_addr = 3, deleted = [0]\<rparr>
          :: 'a state"
    have "run [Construct p v, Default r, Assign r p, Destroy p] empty_state = Inr ?S1"
      "exec (Destroy r) ?S1 = Inr ?S2"
      by (rule scenario_B [OF that])+
    moreover have "deleted ?S1 = []" "op_deref r ?S1 = Inr (Some 0)"
      "read_through r ?S1 = Inr v" "deleted ?S2 = [0]"
      by (simp_all add: op_deref_def read_through_def load_def)
    ultimately show ?thesis by blast
  qed
  have 9: "\<exists>s1. run [Construct p v, Construct q w, Assign p q] empty_state = Inr s1 \<and>
                 deleted s1 = [0] \<and> read_through p s1 = Inr w" if "q \<noteq> p" for q w
  proof -
    let ?S = "\<lparr>vars = [(p, \<lparr>pData = Some 2, reference = 3\<rparr>), (q, \<lparr>pData = Some 2, reference = 3\<rparr>)],
          rcs = [3 \<mapsto> \<lparr>count = 2\<rparr>], objs = [2 \<mapsto> w], next_addr = 4, deleted = [0]\<rparr> :: 'a state"
    from that have "p \<noteq> q" by simp
    from scenario_C [OF this, of v w]
    have "run [Construct p v, Construct q w, Assign p q] empty_state = Inr ?S" .
    moreover have "deleted ?S = [0]" "read_through p ?S = Inr w"
      by (simp_all add: op_deref_def read_through_def load_def)
    ultimately show ?thesis by blast
  qed
  show ?thesis
    unfolding a0
    apply (rule exI [of _ s])
    apply (intro conjI allI impI)
    using r' 1 2 3 4 5 6 7 8 9 by blast+
qed

text \<open>
  Claim C1 on \<open>SP<T> p(new T); SP<T> r; r = p;\<close> and the end of \<open>p\<close>: nothing is released
  while \<open>r\<close> lives, \<open>r\<close> reads the value, and the end of \<open>r\<close> releases it. On
  \<open>SP<T> p(new T); SP<T> r;\<close> the reassignment \<open>r = p\<close> makes \<open>r\<close> point to the value and
  releases nothing. On \<open>SP<T> p(new T); SP<T> q(new T); p = q;\<close> the reassignment releases
  the value of \<open>p\<close>.
\<close>

theorem single_release_witness:
  "scoped {} [Construct 0 (), Default 1, Assign 1 0, Destroy 0] \<and>
   length [Default 1, Assign 1 0, Destroy 0 :: unit stmt] < 2 ^ 31 - 1 \<and>
   (\<exists>s s'. run [Construct 0 (), Default 1, Assign 1 0, Destroy 0] empty_state = Inr s \<and>
      count_list (deleted s) 0 = 0 \<and> owners 0 s = [1] \<and>
      op_deref 1 s = Inr (Some 0) \<and> read_through 1 s = Inr () \<and>
      exec (Destroy 1) s = Inr s' \<and> 0 \<notin> set (deleted s) \<and> 0 \<in> set (deleted s') \<and>
      count_list (deleted s') 0 = 1 \<and> 1 \<notin> set (owners 0 s')) \<and>
   scoped {} [Construct 0 (), Default 1] \<and>
   length [Default 1 :: unit stmt] < 2 ^ 31 - 1 \<and>
   (\<exists>s s'. run [Construct 0 (), Default 1] empty_state = Inr s \<and>
      0 \<in> set (owners 0 s) \<and> 1 \<notin> set (owners 0 s) \<and> op_deref 1 s = Inr None \<and>
      exec (Assign 1 0) s = Inr s' \<and>
      0 \<in> set (owners 0 s') \<and> 1 \<in> set (owners 0 s') \<and>
      op_deref 1 s' = Inr (Some 0) \<and> deleted s' = []) \<and>
   (1::nat) \<noteq> 0 \<and>
   (\<exists>s. run [Construct 0 (), Construct 1 (), Assign 0 1] empty_state = Inr s \<and>
      deleted s = [0])"
proof -
  let ?S = "\<lparr>vars = [(1, \<lparr>pData = Some 0, reference = 1\<rparr>)], rcs = [1 \<mapsto> \<lparr>count = 1\<rparr>],
          objs = [0 \<mapsto> ()], next_addr = 3, deleted = []\<rparr> :: unit state"
  let ?S' = "\<lparr>vars = [], rcs = Map.empty, objs = Map.empty, next_addr = 3, deleted = [0]\<rparr>
     :: unit state"
  let ?T = "\<lparr>vars = [(0, \<lparr>pData = Some 0, reference = 1\<rparr>), (1, \<lparr>pData = None, reference = 2\<rparr>)],
          rcs = [1 \<mapsto> \<lparr>count = 1\<rparr>, 2 \<mapsto> \<lparr>count = 1\<rparr>], objs = [0 \<mapsto> ()], next_addr = 3,
          deleted = []\<rparr> :: unit state"
  let ?T' = "\<lparr>vars = [(0, \<lparr>pData = Some 0, reference = 1\<rparr>), (1, \<lparr>pData = Some 0, reference = 1\<rparr>)],
          rcs = [1 \<mapsto> \<lparr>count = 2\<rparr>], objs = [0 \<mapsto> ()], next_addr = 3, deleted = []\<rparr>
     :: unit state"
  have a0: "fst (new_T () (empty_state :: unit state)) = 0" by (simp add: empty_state_def)
  have sc: "scoped {} [Construct 0 (), Default 1, Assign 1 0, Destroy 0]" by simp
  have b: "length [Default 1, Assign 1 0, Destroy 0 :: unit stmt] < 2 ^ 31 - 1" by simp
  have r: "run [Construct 0 (), Default 1, Assign 1 0, Destroy 0] empty_state = Inr ?S"
    by (auto simp: eval_defs fun_eq_iff)
  have e: "exec (Destroy 1) ?S = Inr ?S'"
    by (auto simp: eval_defs fun_eq_iff)
  from single_release [OF sc b] obtain s where
    s: "run [Construct 0 (), Default 1, Assign 1 0, Destroy 0] empty_state = Inr s"
    and s1: "count_list (deleted s) (fst (new_T () (empty_state :: unit state))) =
      (if owners (fst (new_T () (empty_state :: unit state))) s = [] then 1 else 0)"
    and s4: "\<forall>h. h \<in> set (owners (fst (new_T () (empty_state :: unit state))) s) \<longleftrightarrow>
                op_deref h s = Inr (Some (fst (new_T () (empty_state :: unit state))))"
    and s5: "\<forall>h. h \<in> set (owners (fst (new_T () (empty_state :: unit state))) s) \<longrightarrow>
                (\<exists>w. read_through h s = Inr w)"
    and s6: "\<forall>c s' k. exec c s = Inr s' \<longrightarrow>
              (k \<in> set (owners (fst (new_T () (empty_state :: unit state))) s') \<longleftrightarrow>
                 (case c of
                    Default h \<Rightarrow> k \<in> set (owners (fst (new_T () (empty_state :: unit state))) s)
                  | Construct h w \<Rightarrow>
                      k \<in> set (owners (fst (new_T () (empty_state :: unit state))) s)
                  | Copy h src \<Rightarrow>
                      if k = h then src \<in> set (owners (fst (new_T () (empty_state :: unit state))) s)
                      else k \<in> set (owners (fst (new_T () (empty_state :: unit state))) s)
                  | Assign h src \<Rightarrow>
                      if k = h then src \<in> set (owners (fst (new_T () (empty_state :: unit state))) s)
                      else k \<in> set (owners (fst (new_T () (empty_state :: unit state))) s)
                  | Destroy h \<Rightarrow>
                      k \<noteq> h \<and> k \<in> set (owners (fst (new_T () (empty_state :: unit state))) s)))"
    by (elim exE conjE)
  from s r have eq: "s = ?S" by simp
  have o: "owners 0 ?S = [1]" by (simp add: owners_def)
  from s1 have "count_list (deleted ?S) 0 = 0" unfolding a0 eq by (simp add: owners_def)
  moreover from s4 [rule_format, of 1] o have "op_deref 1 ?S = Inr (Some 0)"
    unfolding a0 eq by simp
  moreover from s5 [rule_format, of 1] o have "read_through 1 ?S = Inr ()"
    unfolding a0 eq by simp
  moreover from s6 [rule_format, of "Destroy 1" ?S' 1] e have "1 \<notin> set (owners 0 ?S')"
    unfolding a0 eq by simp
  moreover have "0 \<notin> set (deleted ?S)" "0 \<in> set (deleted ?S')" "count_list (deleted ?S') 0 = 1"
    by simp_all
  ultimately have first: "\<exists>s s'. run [Construct 0 (), Default 1, Assign 1 0, Destroy 0] empty_state = Inr s \<and>
      count_list (deleted s) 0 = 0 \<and> owners 0 s = [1] \<and>
      op_deref 1 s = Inr (Some 0) \<and> read_through 1 s = Inr () \<and>
      exec (Destroy 1) s = Inr s' \<and> 0 \<notin> set (deleted s) \<and> 0 \<in> set (deleted s') \<and>
      count_list (deleted s') 0 = 1 \<and> 1 \<notin> set (owners 0 s')"
    using r e o by blast
  have sc2: "scoped {} [Construct 0 (), Default 1]" by simp
  have b2: "length [Default 1 :: unit stmt] < 2 ^ 31 - 1" by simp
  have r2: "run [Construct 0 (), Default 1] empty_state = Inr ?T"
    by (auto simp: eval_defs fun_eq_iff numeral_eq_Suc)
  have e2: "exec (Assign 1 0) ?T = Inr ?T'"
    by (auto simp: eval_defs fun_eq_iff)
  from single_release [OF sc2 b2] obtain t where
    t: "run [Construct 0 (), Default 1] empty_state = Inr t"
    and t4: "\<forall>h. h \<in> set (owners (fst (new_T () (empty_state :: unit state))) t) \<longleftrightarrow>
                op_deref h t = Inr (Some (fst (new_T () (empty_state :: unit state))))"
    and t6: "\<forall>c s' k. exec c t = Inr s' \<longrightarrow>
              (k \<in> set (owners (fst (new_T () (empty_state :: unit state))) s') \<longleftrightarrow>
                 (case c of
                    Default h \<Rightarrow> k \<in> set (owners (fst (new_T () (empty_state :: unit state))) t)
                  | Construct h w \<Rightarrow>
                      k \<in> set (owners (fst (new_T () (empty_state :: unit state))) t)
                  | Copy h src \<Rightarrow>
                      if k = h then src \<in> set (owners (fst (new_T () (empty_state :: unit state))) t)
                      else k \<in> set (owners (fst (new_T () (empty_state :: unit state))) t)
                  | Assign h src \<Rightarrow>
                      if k = h then src \<in> set (owners (fst (new_T () (empty_state :: unit state))) t)
                      else k \<in> set (owners (fst (new_T () (empty_state :: unit state))) t)
                  | Destroy h \<Rightarrow>
                      k \<noteq> h \<and> k \<in> set (owners (fst (new_T () (empty_state :: unit state))) t)))"
    and t7: "\<forall>h src s'. exec (Assign h src) t = Inr s' \<longrightarrow> op_deref h s' = op_deref src t"
    and t9: "\<forall>q w. q \<noteq> 0 \<longrightarrow>
              (\<exists>s1. run [Construct 0 (), Construct q w, Assign 0 q] empty_state = Inr s1 \<and>
                 deleted s1 = [fst (new_T () (empty_state :: unit state))] \<and>
                 read_through 0 s1 = Inr w)"
    by (elim exE conjE)
  from t r2 have eq2: "t = ?T" by simp
  have o2: "0 \<in> set (owners 0 ?T)" "1 \<notin> set (owners 0 ?T)" by (simp_all add: owners_def)
  have d2: "op_deref 1 ?T = Inr None" by (simp add: op_deref_def load_def)
  from t6 [rule_format, of "Assign 1 0" ?T' 1] e2 o2 have n1: "1 \<in> set (owners 0 ?T')"
    unfolding a0 eq2 by simp
  from t6 [rule_format, of "Assign 1 0" ?T' 0] e2 o2 have n0: "0 \<in> set (owners 0 ?T')"
    unfolding a0 eq2 by simp
  from t4 [rule_format, of 0] o2 have "op_deref 0 ?T = Inr (Some 0)"
    unfolding a0 eq2 by simp
  with t7 [rule_format, of 1 0 ?T'] e2 have n2: "op_deref 1 ?T' = Inr (Some 0)"
    unfolding eq2 by simp
  have "deleted ?T' = []" by simp
  with r2 e2 o2 d2 n0 n1 n2 have second: "\<exists>s s'. run [Construct 0 (), Default 1] empty_state = Inr s \<and>
      0 \<in> set (owners 0 s) \<and> 1 \<notin> set (owners 0 s) \<and> op_deref 1 s = Inr None \<and>
      exec (Assign 1 0) s = Inr s' \<and>
      0 \<in> set (owners 0 s') \<and> 1 \<in> set (owners 0 s') \<and>
      op_deref 1 s' = Inr (Some 0) \<and> deleted s' = []"
    by blast
  from t9 [rule_format, of 1 "()"] have third:
    "\<exists>s. run [Construct 0 (), Construct 1 (), Assign 0 1] empty_state = Inr s \<and> deleted s = [0]"
    unfolding a0 by auto
  from sc b first sc2 b2 second third show ?thesis by simp
qed

subsection \<open>The count is the number of live handles\<close>

text \<open>
  Claim C2. After every statement of a program that starts in the empty state and respects
  scoping (fewer than \<open>2^31\<close> statements), the counter of every live handle, read as a
  signed \<open>int\<close>, is the number of live handles bound to that counter. Each of the three
  constructors increments the counter the new handle is bound to (a new counter starts
  at 0); the destructor, and a reassignment to another binding, decrement the counter of the
  binding they leave, and delete it when that yields 0.
\<close>

theorem count_equals_live_handles:
  "(scoped {} cs \<and> length cs < 2 ^ 31 \<longrightarrow>
      (\<exists>s. run cs empty_state = Inr s \<and> count_matches s)) \<and>
   (SP_default h s = Inr s' \<longrightarrow>
      (\<exists>sp. map_of (vars s') h = Some sp \<and>
         rcs s' (reference sp) = Some (AddRef \<lparr>count = 0\<rparr>))) \<and>
   (SP_raw h pv s = Inr s' \<longrightarrow>
      (\<exists>sp. map_of (vars s') h = Some sp \<and>
         rcs s' (reference sp) = Some (AddRef \<lparr>count = 0\<rparr>))) \<and>
   (SP_copy h src s = Inr s' \<longrightarrow>
      (\<exists>sp rc. map_of (vars s') h = Some sp \<and> rcs s (reference sp) = Some rc \<and>
         rcs s' (reference sp) = Some (AddRef rc))) \<and>
   (SP_dtor h s = Inr s' \<longrightarrow>
      (\<exists>this rc. map_of (vars s) h = Some this \<and> rcs s (reference this) = Some rc \<and>
         (if fst (Release rc) = 0 then rcs s' (reference this) = None
          else rcs s' (reference this) = Some (snd (Release rc))))) \<and>
   (SP_assign h src s = Inr s' \<and> map_of (vars s) h = Some this \<and>
    map_of (vars s) src = Some sp \<and> reference sp \<noteq> reference this \<longrightarrow>
      (\<exists>rc. rcs s (reference this) = Some rc \<and>
         (if fst (Release rc) = 0 then rcs s' (reference this) = None
          else rcs s' (reference this) = Some (snd (Release rc)))))"
proof (intro conjI impI)
  assume "scoped {} cs \<and> length cs < 2 ^ 31"
  then have sc: "scoped {} cs" and b: "length cs < 2 ^ 31" by simp_all
  from run_from_empty [OF sc b] obtain s where
    r: "run cs empty_state = Inr s" and c: "consistent s" and l: "length (vars s) \<le> length cs"
    by blast
  from l b have "length (vars s) < 2 ^ 31" by simp
  from consistent_count_matches [OF c this] r
  show "\<exists>s. run cs empty_state = Inr s \<and> count_matches s" by blast
next
  assume e: "SP_default h s = Inr s'"
  then have na: "\<not> alive h s" by (auto simp: SP_default_def split: if_splits)
  then have hk: "h \<notin> fst ` set (vars s)" by (simp add: alive_def)
  from e SP_raw_effect [OF na, of None]
  show "\<exists>sp. map_of (vars s') h = Some sp \<and> rcs s' (reference sp) = Some (AddRef \<lparr>count = 0\<rparr>)"
    using map_of_snoc_fresh [OF hk, of _ h]
    by (auto simp: SP_default_raw AddRef_def simp del: map_of_append)
next
  assume e: "SP_raw h pv s = Inr s'"
  then have na: "\<not> alive h s" by (auto simp: SP_raw_def split: if_splits)
  then have hk: "h \<notin> fst ` set (vars s)" by (simp add: alive_def)
  from e SP_raw_effect [OF na, of pv]
  show "\<exists>sp. map_of (vars s') h = Some sp \<and> rcs s' (reference sp) = Some (AddRef \<lparr>count = 0\<rparr>)"
    using map_of_snoc_fresh [OF hk, of _ h]
    by (auto simp: AddRef_def simp del: map_of_append)
next
  assume e: "SP_copy h src s = Inr s'"
  then have na: "\<not> alive h s" by (auto simp: SP_copy_def split: if_splits)
  then have hk: "h \<notin> fst ` set (vars s)" by (simp add: alive_def)
  from e na obtain sp where sp: "map_of (vars s) src = Some sp"
    by (cases "map_of (vars s) src") (auto simp: SP_copy_def)
  from e na sp obtain rc where rc: "rcs s (reference sp) = Some rc"
    by (cases "rcs s (reference sp)") (auto simp: SP_copy_def ref_AddRef_def)
  from e SP_copy_effect [OF na sp rc]
  have "s' = s\<lparr>vars := vars s @ [(h, sp)],
            rcs := (rcs s)(reference sp \<mapsto> rc\<lparr>count := count rc + 1\<rparr>)\<rparr>" by simp
  then have "map_of (vars s') h = Some sp" "rcs s' (reference sp) = Some (AddRef rc)"
    using map_of_snoc_fresh [OF hk, of sp h] by (simp_all add: AddRef_def del: map_of_append)
  with rc show "\<exists>sp rc. map_of (vars s') h = Some sp \<and> rcs s (reference sp) = Some rc \<and>
         rcs s' (reference sp) = Some (AddRef rc)" by blast
next
  assume e: "SP_dtor h s = Inr s'"
  then obtain this where t: "map_of (vars s) h = Some this"
    by (cases "map_of (vars s) h") (auto simp: SP_dtor_def)
  with e obtain s1 where rb: "release_block this s = Inr s1" and s': "s' = end_lifetime h s1"
    by (cases "release_block this s") (auto simp: SP_dtor_def)
  from release_block_rcs [OF rb] obtain rc where "rcs s (reference this) = Some rc"
    "if fst (Release rc) = 0 then rcs s1 (reference this) = None
     else rcs s1 (reference this) = Some (snd (Release rc))" by blast
  with t s' show "\<exists>this rc. map_of (vars s) h = Some this \<and> rcs s (reference this) = Some rc \<and>
         (if fst (Release rc) = 0 then rcs s' (reference this) = None
          else rcs s' (reference this) = Some (snd (Release rc)))"
    by (auto simp: end_lifetime_def)
next
  assume "SP_assign h src s = Inr s' \<and> map_of (vars s) h = Some this \<and>
    map_of (vars s) src = Some sp \<and> reference sp \<noteq> reference this"
  then have e: "SP_assign h src s = Inr s'" and t: "map_of (vars s) h = Some this"
    and sp: "map_of (vars s) src = Some sp" and ne: "reference sp \<noteq> reference this"
    by simp_all
  from t sp ne have hs: "h \<noteq> src" by auto
  from SP_assign_steps [OF e t sp hs] obtain s1 where rb: "release_block this s = Inr s1"
    and ar: "ref_AddRef (reference sp) (s1\<lparr>vars := AList.update h sp (vars s)\<rparr>) = Inr s'"
    by blast
  from release_block_rcs [OF rb] obtain rc where rc: "rcs s (reference this) = Some rc"
    "if fst (Release rc) = 0 then rcs s1 (reference this) = None
     else rcs s1 (reference this) = Some (snd (Release rc))" by blast
  from ar ne have "rcs s' (reference this) = rcs s1 (reference this)"
    by (auto simp: ref_AddRef_def split: option.splits)
  with rc show "\<exists>rc. rcs s (reference this) = Some rc \<and>
         (if fst (Release rc) = 0 then rcs s' (reference this) = None
          else rcs s' (reference this) = Some (snd (Release rc)))"
    by auto
qed

text \<open>
  Claim C2 on a program with all five statements, and on each constructor, the destructor
  and the reassignment in small states.
\<close>

theorem count_equals_live_handles_witness:
  "scoped {} [Construct 0 (), Copy 1 0, Default 2, Assign 2 0, Destroy 1] \<and>
   length [Construct 0 (), Copy 1 0, Default 2, Assign 2 0, Destroy 1] < 2 ^ 31 \<and>
   (\<exists>s. run [Construct 0 (), Copy 1 0, Default 2, Assign 2 0, Destroy 1] empty_state = Inr s \<and>
      count_matches s \<and> counter_of 0 s = Some 2 \<and> refcount 1 (vars s) = 2) \<and>
   \<not> isl (SP_default 0 (empty_state :: unit state)) \<and>
   \<not> isl (SP_raw 0 None (empty_state :: unit state)) \<and>
   \<not> isl (SP_copy 1 0 single_owner) \<and> \<not> isl (SP_dtor 0 two_handles) \<and>
   \<not> isl (SP_assign 0 1 two_handles) \<and>
   rcs (projr (SP_default 0 (empty_state :: unit state))) 0 = Some (AddRef \<lparr>count = 0\<rparr>) \<and>
   rcs (projr (SP_copy 1 0 single_owner)) 1 = Some (AddRef \<lparr>count = 1\<rparr>) \<and>
   rcs (projr (SP_dtor 0 two_handles)) 1 = None \<and>
   rcs (projr (SP_assign 0 1 two_handles)) 1 = None"
proof -
  let ?prog = "[Construct 0 (), Copy 1 0, Default 2, Assign 2 0, Destroy 1] :: unit stmt list"
  let ?S = "\<lparr>vars = [(0, \<lparr>pData = Some 0, reference = 1\<rparr>), (2, \<lparr>pData = Some 0, reference = 1\<rparr>)],
     rcs = [1 \<mapsto> \<lparr>count = 2\<rparr>], objs = [0 \<mapsto> ()], next_addr = 3, deleted = []\<rparr> :: unit state"
  have sc: "scoped {} ?prog" by simp
  have b: "length ?prog < 2 ^ 31" by simp
  have r: "run ?prog empty_state = Inr ?S"
    by (auto simp: eval_defs fun_eq_iff)
  from count_equals_live_handles [where cs = ?prog, THEN conjunct1] sc b r
  have cm: "count_matches ?S" by auto
  have k: "counter_of 0 ?S = Some 2" "refcount 1 (vars ?S) = 2"
    by (simp_all add: counter_of_def refcount_def)
  have e1: "SP_default 0 (empty_state :: unit state) =
      Inr \<lparr>vars = [(0, \<lparr>pData = None, reference = 0\<rparr>)], rcs = [0 \<mapsto> \<lparr>count = 1\<rparr>],
           objs = Map.empty, next_addr = 1, deleted = []\<rparr>"
    and e2: "SP_raw 0 None (empty_state :: unit state) =
      Inr \<lparr>vars = [(0, \<lparr>pData = None, reference = 0\<rparr>)], rcs = [0 \<mapsto> \<lparr>count = 1\<rparr>],
           objs = Map.empty, next_addr = 1, deleted = []\<rparr>"
    by (simp_all add: eval_defs)
  have e3: "SP_copy 1 0 single_owner =
      Inr \<lparr>vars = [(0, \<lparr>pData = Some 0, reference = 1\<rparr>), (1, \<lparr>pData = Some 0, reference = 1\<rparr>)],
           rcs = [1 \<mapsto> \<lparr>count = 2\<rparr>], objs = [0 \<mapsto> ()], next_addr = 2, deleted = []\<rparr>"
    by (simp add: single_owner_eq eval_defs)
  have e4: "SP_dtor 0 two_handles =
      Inr \<lparr>vars = [(1, \<lparr>pData = Some 2, reference = 3\<rparr>)], rcs = [3 \<mapsto> \<lparr>count = 1\<rparr>],
           objs = [2 \<mapsto> ()], next_addr = 4, deleted = [0]\<rparr>"
    by (auto simp: two_handles_eq eval_defs fun_eq_iff)
  have e5: "SP_assign 0 1 two_handles =
      Inr \<lparr>vars = [(0, \<lparr>pData = Some 2, reference = 3\<rparr>), (1, \<lparr>pData = Some 2, reference = 3\<rparr>)],
           rcs = [3 \<mapsto> \<lparr>count = 2\<rparr>], objs = [2 \<mapsto> ()], next_addr = 4, deleted = [0]\<rparr>"
    by (auto simp: two_handles_eq eval_defs fun_eq_iff)
  have th: "rcs two_handles 1 = Some \<lparr>count = 1\<rparr>" by (simp add: two_handles_eq)
  have so: "rcs single_owner 1 = Some \<lparr>count = 1\<rparr>" by (simp add: single_owner_eq)
  have m: "map_of (vars two_handles) 0 = Some \<lparr>pData = Some 0, reference = 1\<rparr>"
    "map_of (vars two_handles) 1 = Some \<lparr>pData = Some 2, reference = 3\<rparr>"
    by (simp_all add: two_handles_eq)
  from count_equals_live_handles [where h = 0 and s = "empty_state :: unit state"
      and s' = "projr (SP_default 0 (empty_state :: unit state))",
      THEN conjunct2, THEN conjunct1]
  have 1: "rcs (projr (SP_default 0 (empty_state :: unit state))) 0 = Some (AddRef \<lparr>count = 0\<rparr>)"
    using e1 by auto
  from count_equals_live_handles [where h = 0 and s = "empty_state :: unit state"
      and s' = "projr (SP_raw 0 None (empty_state :: unit state))" and pv = None,
      THEN conjunct2, THEN conjunct2, THEN conjunct1]
  have 2: "rcs (projr (SP_raw 0 None (empty_state :: unit state))) 0 = Some (AddRef \<lparr>count = 0\<rparr>)"
    using e2 by auto
  from count_equals_live_handles [where h = 1 and src = 0 and s = single_owner
      and s' = "projr (SP_copy 1 0 single_owner)",
      THEN conjunct2, THEN conjunct2, THEN conjunct2, THEN conjunct1]
  have 3: "rcs (projr (SP_copy 1 0 single_owner)) 1 = Some (AddRef \<lparr>count = 1\<rparr>)"
    using so e3 by auto
  from count_equals_live_handles [where h = 0 and s = two_handles
      and s' = "projr (SP_dtor 0 two_handles)",
      THEN conjunct2, THEN conjunct2, THEN conjunct2, THEN conjunct2, THEN conjunct1]
  have 4: "rcs (projr (SP_dtor 0 two_handles)) 1 = None"
    using m th e4 by (auto simp: Release_def)
  from count_equals_live_handles [where h = 0 and src = 1 and s = two_handles
      and s' = "projr (SP_assign 0 1 two_handles)" and this = "\<lparr>pData = Some 0, reference = 1\<rparr>"
      and sp = "\<lparr>pData = Some 2, reference = 3\<rparr>",
      THEN conjunct2, THEN conjunct2, THEN conjunct2, THEN conjunct2, THEN conjunct2]
  have 5: "rcs (projr (SP_assign 0 1 two_handles)) 1 = None"
    using m th e5 by (auto simp: Release_def)
  from sc b r cm k 1 2 3 4 5 e1 e2 e3 e4 e5 show ?thesis by simp
qed

subsection \<open>Reassignment\<close>

text \<open>
  Claim C3, as stated: for every pair of handles the former binding of the target is
  released if and only if the target was the only handle bound to it. It does not hold when
  the two handles are one and the same: the handle of \<open>SP<T> p(new T)\<close> is the only one
  bound to its counter, and \<open>p = p\<close> returns the state as it was, with the counter and the
  value in place and nothing released.
\<close>

theorem sole_owner_self_assignment_counterexample:
  "map_of (vars single_owner) 0 = Some \<lparr>pData = Some 0, reference = 1\<rparr> \<and>
   refcount 1 (vars single_owner) = 1 \<and>
   SP_assign 0 0 single_owner = Inr single_owner \<and>
   rcs single_owner 1 = Some \<lparr>count = 1\<rparr> \<and> objs single_owner 0 = Some () \<and>
   deleted single_owner = []"
proof -
  have m: "map_of (vars single_owner) 0 = Some \<lparr>pData = Some 0, reference = 1\<rparr>"
    by (simp add: single_owner_eq)
  then have "alive 0 single_owner" by (auto simp: alive_map_of)
  with m have "SP_assign 0 0 single_owner = Inr single_owner" by (simp add: SP_assign_def)
  moreover have "refcount 1 (vars single_owner) = 1" "rcs single_owner 1 = Some \<lparr>count = 1\<rparr>"
    "objs single_owner 0 = Some ()" "deleted single_owner = []"
    by (simp_all add: single_owner_eq refcount_def)
  ultimately show ?thesis using m by simp
qed

text \<open>
  Claim C3, amended. In a consistent state with fewer than \<open>2^31\<close> handles, let \<open>tgt\<close>
  and \<open>src\<close> be live handles. After \<open>tgt = src\<close> the target has the value pointer and the
  counter of the source. If the two are different handles, the state is the one that
  destroying \<open>tgt\<close> and copy-constructing it from \<open>src\<close> yields (up to the place of
  \<open>tgt\<close> in the table of handles). The former binding of \<open>tgt\<close> is released, value and
  counter, if \<open>tgt\<close> was the only handle bound to it and \<open>src\<close> is another handle, and is
  left alone otherwise. Scenario C: after
  \<open>SP<T> p(new T(v1)); SP<T> q(new T(v2)); p = q;\<close> the first value is released, the
  counter of the second is 2 and both handles dereference to the second value.
\<close>

theorem reassignment_acts_as_duplicate:
  "(consistent s \<and> length (vars s) < 2 ^ 31 \<and> map_of (vars s) tgt = Some old \<and>
    map_of (vars s) src = Some sp \<longrightarrow>
      (\<exists>s'. SP_assign tgt src s = Inr s' \<and> consistent s' \<and>
         map_of (vars s') tgt = Some sp \<and> map_of (vars s') src = Some sp \<and>
         op_deref tgt s' = op_deref src s' \<and> counter_of tgt s' = counter_of src s' \<and>
         (tgt \<noteq> src \<longrightarrow>
            (\<exists>s1 s2. SP_dtor tgt s = Inr s1 \<and> SP_copy tgt src s1 = Inr s2 \<and>
               s' = s2\<lparr>vars := AList.update tgt sp (vars s)\<rparr>)) \<and>
         (if refcount (reference old) (vars s) = 1 \<and> tgt \<noteq> src
          then rcs s' (reference old) = None \<and>
               (case pData old of
                  None \<Rightarrow> objs s' = objs s \<and> deleted s' = deleted s
                | Some a \<Rightarrow> objs s' a = None \<and> deleted s' = a # deleted s)
          else rcs s' (reference old) \<noteq> None \<and> objs s' = objs s \<and>
               deleted s' = deleted s))) \<and>
   (p \<noteq> q \<longrightarrow>
      (\<exists>s'. run [Construct p v1, Construct q v2, Assign p q] empty_state = Inr s' \<and>
         deleted s' = [fst (new_T v1 empty_state)] \<and>
         objs s' (fst (new_T v1 empty_state)) = None \<and>
         counter_of q s' = Some 2 \<and> counter_of p s' = Some 2 \<and>
         op_deref p s' = op_deref q s' \<and>
         read_through p s' = Inr v2 \<and> read_through q s' = Inr v2))"
proof (intro conjI impI)
  assume a: "consistent s \<and> length (vars s) < 2 ^ 31 \<and> map_of (vars s) tgt = Some old \<and>
    map_of (vars s) src = Some sp"
  then have c: "consistent s" and b: "length (vars s) < 2 ^ 31"
    and t: "map_of (vars s) tgt = Some old" and sp: "map_of (vars s) src = Some sp"
    by simp_all
  let ?goal = "\<exists>s'. SP_assign tgt src s = Inr s' \<and> consistent s' \<and>
         map_of (vars s') tgt = Some sp \<and> map_of (vars s') src = Some sp \<and>
         op_deref tgt s' = op_deref src s' \<and> counter_of tgt s' = counter_of src s' \<and>
         (tgt \<noteq> src \<longrightarrow>
            (\<exists>s1 s2. SP_dtor tgt s = Inr s1 \<and> SP_copy tgt src s1 = Inr s2 \<and>
               s' = s2\<lparr>vars := AList.update tgt sp (vars s)\<rparr>)) \<and>
         (if refcount (reference old) (vars s) = 1 \<and> tgt \<noteq> src
          then rcs s' (reference old) = None \<and>
               (case pData old of
                  None \<Rightarrow> objs s' = objs s \<and> deleted s' = deleted s
                | Some a \<Rightarrow> objs s' a = None \<and> deleted s' = a # deleted s)
          else rcs s' (reference old) \<noteq> None \<and> objs s' = objs s \<and>
               deleted s' = deleted s)"
  from c have dk: "distinct (map fst (vars s))" and co: "counters_ok s" and pl: "payloads_ok s"
    by (simp_all add: consistent_def keys_ok_def)
  have in_t: "(tgt, old) \<in> set (vars s)" and in_src: "(src, sp) \<in> set (vars s)"
    using t sp by (auto dest: map_of_SomeD)
  from counters_okD [OF co in_t] obtain rc where rc: "rcs s (reference old) = Some rc"
    and cnt: "count rc = of_nat (refcount (reference old) (vars s))" by auto
  show ?goal
  proof (cases "tgt = src")
    case True
    with t sp have same: "sp = old" by simp
    have al: "alive src s" using sp by (auto simp: alive_map_of)
    from True t al have "SP_assign tgt src s = Inr s" by (simp add: SP_assign_def)
    moreover have "op_deref tgt s = op_deref src s" "counter_of tgt s = counter_of src s"
      using True by simp_all
    ultimately show ?thesis using True c t sp same rc by auto
  next
    case ne: False
    from b have b32: "length (vars s) < 2 ^ 32" by simp
    have tk: "tgt \<in> fst ` set (vars s)" using in_t by force
    from step_assign [OF c b32 tk sp] obtain s' where e: "SP_assign tgt src s = Inr s'"
      and ok: "step_ok s s' (fst ` set (vars s))" and v': "vars s' = AList.update tgt sp (vars s)"
      by blast
    from ok have c': "consistent s'" by (simp add: step_ok_def)
    have mt: "map_of (vars s') tgt = Some sp" by (simp add: v' update_conv')
    have ms: "map_of (vars s') src = Some sp" using sp ne by (simp add: v' update_conv')
    have dr: "op_deref tgt s' = op_deref src s'" "counter_of tgt s' = counter_of src s'"
      by (simp_all add: op_deref_def counter_of_def mt ms)
    from step_dtor [OF c b32 tk] obtain s1 where d: "SP_dtor tgt s = Inr s1"
      and ok1: "step_ok s s1 (fst ` set (vars s) - {tgt})"
      and v1: "vars s1 = AList.delete tgt (vars s)" by blast
    from ok1 have c1: "consistent s1" and L1: "fst ` set (vars s1) = fst ` set (vars s) - {tgt}"
      by (simp_all add: step_ok_def)
    have na1: "\<not> alive tgt s1" by (simp add: alive_def L1)
    have src1: "map_of (vars s1) src = Some sp" using ne sp by (simp add: v1 delete_conv')
    from SP_copy_consistent [OF c1 na1 src1] obtain s2 where cp: "SP_copy tgt src s1 = Inr s2"
      by blast
    from SP_assign_as_dtor_copy [OF ne sp d cp] e
    have dc: "s' = s2\<lparr>vars := AList.update tgt sp (vars s)\<rparr>" by simp
    from counters_okD [OF co in_src] obtain rc2 where rc2: "rcs s (reference sp) = Some rc2"
      by auto
    have pay: "case pData old of None \<Rightarrow> True | Some a \<Rightarrow> objs s a \<noteq> None"
      using payloads_okD [OF pl in_t] by (auto split: option.splits)
    let ?n = "refcount (reference old) (vars s)"
    have npos: "0 < ?n" using refcount_pos [OF in_t] .
    then have "?n = Suc (?n - 1)" by simp
    then have "(of_nat ?n :: cint) = of_nat (?n - 1) + 1" by (metis of_nat_Suc add.commute)
    with cnt have c1': "count rc - 1 = of_nat (?n - 1)" by simp
    have "?n - 1 < 2 ^ 32" using refcount_le_length [of "reference old" "vars s"] b32 by simp
    from word32_of_nat_eq_0 [OF this] c1' npos have z: "count rc - 1 = 0 \<longleftrightarrow> ?n = 1" by auto
    have eff: "SP_assign tgt src s = ref_AddRef (reference sp)
         ((if count rc - 1 = 0
            then s\<lparr>rcs := (rcs s)(reference old := None),
                   objs := (case pData old of None \<Rightarrow> objs s | Some a \<Rightarrow> (objs s)(a := None)),
                   deleted := (case pData old of None \<Rightarrow> deleted s | Some a \<Rightarrow> a # deleted s)\<rparr>
            else s\<lparr>rcs := (rcs s)(reference old \<mapsto> rc\<lparr>count := count rc - 1\<rparr>)\<rparr>)
          \<lparr>vars := AList.update tgt sp (vars s)\<rparr>)"
      by (rule SP_assign_effect [OF t rc pay sp ne])
    have rel: "if ?n = 1
            then rcs s' (reference old) = None \<and>
                 (case pData old of
                    None \<Rightarrow> objs s' = objs s \<and> deleted s' = deleted s
                  | Some a \<Rightarrow> objs s' a = None \<and> deleted s' = a # deleted s)
            else rcs s' (reference old) \<noteq> None \<and> objs s' = objs s \<and> deleted s' = deleted s"
    proof (cases "?n = 1")
      case True
      have diff: "reference sp \<noteq> reference old"
      proof
        assume "reference sp = reference old"
        then have "reference old = reference sp" by simp
        from refcount_two [OF dk t sp ne this] True show False by simp
      qed
      from True z have "count rc - 1 = 0" by simp
      with e eff rc2 diff True show ?thesis
        by (auto simp: ref_AddRef_def split: option.splits)
    next
      case False
      with z have "count rc - 1 \<noteq> 0" by simp
      with e eff rc2 False show ?thesis
        by (auto simp: ref_AddRef_def split: option.splits if_splits)
    qed
    show ?thesis
      using ne e c' mt ms dr d cp dc rel by auto
  qed
next
  assume pq: "p \<noteq> q"
  let ?S = "\<lparr>vars = [(p, \<lparr>pData = Some 2, reference = 3\<rparr>), (q, \<lparr>pData = Some 2, reference = 3\<rparr>)],
          rcs = [3 \<mapsto> \<lparr>count = 2\<rparr>], objs = [2 \<mapsto> v2], next_addr = 4, deleted = [0]\<rparr>"
  have "run [Construct p v1, Construct q v2, Assign p q] empty_state = Inr ?S"
    by (rule scenario_C [OF pq])
  moreover have "deleted ?S = [fst (new_T v1 empty_state)]"
    "objs ?S (fst (new_T v1 empty_state)) = None"
    "counter_of q ?S = Some 2" "counter_of p ?S = Some 2" "op_deref p ?S = op_deref q ?S"
    "read_through p ?S = Inr v2" "read_through q ?S = Inr v2"
    using pq by (simp_all add: empty_state_def counter_of_def op_deref_def read_through_def load_def)
  ultimately show "\<exists>s'. run [Construct p v1, Construct q v2, Assign p q] empty_state = Inr s' \<and>
         deleted s' = [fst (new_T v1 empty_state)] \<and>
         objs s' (fst (new_T v1 empty_state)) = None \<and>
         counter_of q s' = Some 2 \<and> counter_of p s' = Some 2 \<and>
         op_deref p s' = op_deref q s' \<and>
         read_through p s' = Inr v2 \<and> read_through q s' = Inr v2"
    by blast
qed

text \<open>
  Claim C3, amended, on two handles that own a value each.
\<close>

theorem reassignment_acts_as_duplicate_witness:
  "consistent two_handles \<and> length (vars two_handles) < 2 ^ 31 \<and>
   map_of (vars two_handles) 0 = Some \<lparr>pData = Some 0, reference = 1\<rparr> \<and>
   map_of (vars two_handles) 1 = Some \<lparr>pData = Some 2, reference = 3\<rparr> \<and> (0 :: hid) \<noteq> 1 \<and>
   refcount 1 (vars two_handles) = 1 \<and>
   (\<exists>s'. SP_assign 0 1 two_handles = Inr s' \<and>
      map_of (vars s') 0 = Some \<lparr>pData = Some 2, reference = 3\<rparr> \<and>
      rcs s' 1 = None \<and> objs s' 0 = None \<and> deleted s' = [0]) \<and>
   (\<exists>s'. run [Construct 0 (), Construct 1 (), Assign 0 1] empty_state = Inr s' \<and>
      deleted s' = [0] \<and> counter_of 1 s' = Some 2 \<and> read_through 0 s' = Inr ())"
proof -
  have h: "length (vars two_handles) < 2 ^ 31"
    "map_of (vars two_handles) 0 = Some \<lparr>pData = Some 0, reference = 1\<rparr>"
    "map_of (vars two_handles) 1 = Some \<lparr>pData = Some 2, reference = 3\<rparr>"
    "refcount 1 (vars two_handles) = 1" "deleted two_handles = []"
    by (simp_all add: two_handles_eq refcount_def)
  have n: "(0 :: hid) \<noteq> 1" by simp
  have a0: "fst (new_T () (empty_state :: unit state)) = 0" by (simp add: empty_state_def)
  from reassignment_acts_as_duplicate [where s = two_handles and tgt = 0 and src = 1
      and old = "\<lparr>pData = Some 0, reference = 1\<rparr>" and sp = "\<lparr>pData = Some 2, reference = 3\<rparr>"
      and p = 0 and q = 1 and ?v1.0 = "()" and ?v2.0 = "()"]
    consistent_two_handles h n
  show ?thesis unfolding a0 by auto
qed

text \<open>
  Claim C4. \<open>h = h\<close> changes nothing at all. In a consistent state, \<open>h = src\<close> for two
  handles of one binding changes nothing either. For two different handles,
  \<open>operator=\<close> first runs the release block on the fields of the target (decrement, and
  at zero delete the value and the counter), then copies the two fields of the source, then
  increments the counter that is now shared; for two different bindings this leaves the old
  counter decremented or deleted, the target with the fields of the source and the counter
  of the source incremented.
\<close>

theorem reassignment_steps:
  "(map_of (vars s) h = Some this \<longrightarrow> SP_assign h h s = Inr s) \<and>
   (consistent s \<and> length (vars s) < 2 ^ 31 \<and> map_of (vars s) h = Some this \<and>
    map_of (vars s) src = Some sp \<and> reference this = reference sp \<longrightarrow>
      SP_assign h src s = Inr s) \<and>
   (map_of (vars s) h = Some this \<and> map_of (vars s) src = Some sp \<and> h \<noteq> src \<longrightarrow>
      SP_assign h src s =
        (case release_block this s of
           Inl e \<Rightarrow> Inl e
         | Inr s1 \<Rightarrow> ref_AddRef (reference sp) (s1\<lparr>vars := AList.update h sp (vars s1)\<rparr>))) \<and>
   (consistent s \<and> length (vars s) < 2 ^ 31 \<and> map_of (vars s) h = Some this \<and>
    map_of (vars s) src = Some sp \<and> reference this \<noteq> reference sp \<longrightarrow>
      (\<exists>s' rc rc2. SP_assign h src s = Inr s' \<and>
         rcs s (reference this) = Some rc \<and> rcs s (reference sp) = Some rc2 \<and>
         (if count rc - 1 = 0
          then rcs s' (reference this) = None \<and>
               (case pData this of
                  None \<Rightarrow> objs s' = objs s \<and> deleted s' = deleted s
                | Some a \<Rightarrow> objs s' a = None \<and> deleted s' = a # deleted s)
          else rcs s' (reference this) = Some (rc\<lparr>count := count rc - 1\<rparr>) \<and>
               objs s' = objs s \<and> deleted s' = deleted s) \<and>
         map_of (vars s') h = Some sp \<and>
         rcs s' (reference sp) = Some (rc2\<lparr>count := count rc2 + 1\<rparr>)))"
proof (intro conjI impI)
  assume t: "map_of (vars s) h = Some this"
  then have "alive h s" by (auto simp: alive_map_of)
  with t show "SP_assign h h s = Inr s" by (simp add: SP_assign_def)
next
  assume "consistent s \<and> length (vars s) < 2 ^ 31 \<and> map_of (vars s) h = Some this \<and>
    map_of (vars s) src = Some sp \<and> reference this = reference sp"
  then show "SP_assign h src s = Inr s"
    using assign_same_binding [of s h this src sp] by simp
next
  assume a: "map_of (vars s) h = Some this \<and> map_of (vars s) src = Some sp \<and> h \<noteq> src"
  then have al: "alive src s" by (auto simp: alive_map_of)
  show "SP_assign h src s =
        (case release_block this s of
           Inl e \<Rightarrow> Inl e
         | Inr s1 \<Rightarrow> ref_AddRef (reference sp) (s1\<lparr>vars := AList.update h sp (vars s1)\<rparr>))"
  proof (cases "release_block this s")
    case (Inl e)
    with a al show ?thesis by (simp add: SP_assign_def)
  next
    case (Inr s1)
    from release_block_vars [OF Inr] have "vars s1 = vars s" by simp
    with a al Inr show ?thesis by (simp add: SP_assign_def)
  qed
next
  assume a: "consistent s \<and> length (vars s) < 2 ^ 31 \<and> map_of (vars s) h = Some this \<and>
    map_of (vars s) src = Some sp \<and> reference this \<noteq> reference sp"
  then have c: "consistent s" and t: "map_of (vars s) h = Some this"
    and sp: "map_of (vars s) src = Some sp" and ne: "reference this \<noteq> reference sp"
    by simp_all
  from t sp ne have hs: "h \<noteq> src" by auto
  from c have co: "counters_ok s" and pl: "payloads_ok s" by (simp_all add: consistent_def)
  have in_h: "(h, this) \<in> set (vars s)" and in_src: "(src, sp) \<in> set (vars s)"
    using t sp by (auto dest: map_of_SomeD)
  from counters_okD [OF co in_h] obtain rc where rc: "rcs s (reference this) = Some rc" by auto
  from counters_okD [OF co in_src] obtain rc2 where rc2: "rcs s (reference sp) = Some rc2" by auto
  have pay: "case pData this of None \<Rightarrow> True | Some a \<Rightarrow> objs s a \<noteq> None"
    using payloads_okD [OF pl in_h] by (auto split: option.splits)
  have m: "map_of (AList.update h sp (vars s)) h = Some sp" by (simp add: update_conv')
  show "\<exists>s' rc rc2. SP_assign h src s = Inr s' \<and>
         rcs s (reference this) = Some rc \<and> rcs s (reference sp) = Some rc2 \<and>
         (if count rc - 1 = 0
          then rcs s' (reference this) = None \<and>
               (case pData this of
                  None \<Rightarrow> objs s' = objs s \<and> deleted s' = deleted s
                | Some a \<Rightarrow> objs s' a = None \<and> deleted s' = a # deleted s)
          else rcs s' (reference this) = Some (rc\<lparr>count := count rc - 1\<rparr>) \<and>
               objs s' = objs s \<and> deleted s' = deleted s) \<and>
         map_of (vars s') h = Some sp \<and>
         rcs s' (reference sp) = Some (rc2\<lparr>count := count rc2 + 1\<rparr>)"
    unfolding SP_assign_effect [OF t rc pay sp hs]
    using rc rc2 ne m
    by (auto simp: ref_AddRef_def AddRef_def split: option.splits)
qed

text \<open>
  Claim C4 on two handles that share a value, and on two handles that own a value each.
\<close>

theorem reassignment_steps_witness:
  "map_of (vars shared_pair) 1 = Some \<lparr>pData = Some 0, reference = 1\<rparr> \<and>
   map_of (vars shared_pair) 0 = Some \<lparr>pData = Some 0, reference = 1\<rparr> \<and>
   consistent shared_pair \<and> length (vars shared_pair) < 2 ^ 31 \<and>
   SP_assign 1 1 shared_pair = Inr shared_pair \<and> SP_assign 1 0 shared_pair = Inr shared_pair \<and>
   consistent two_handles \<and> length (vars two_handles) < 2 ^ 31 \<and>
   map_of (vars two_handles) 0 = Some \<lparr>pData = Some 0, reference = 1\<rparr> \<and>
   map_of (vars two_handles) 1 = Some \<lparr>pData = Some 2, reference = 3\<rparr> \<and>
   (\<exists>s'. SP_assign 0 1 two_handles = Inr s' \<and> rcs s' 1 = None \<and> objs s' 0 = None \<and>
      deleted s' = [0] \<and> map_of (vars s') 0 = Some \<lparr>pData = Some 2, reference = 3\<rparr> \<and>
      rcs s' 3 = Some \<lparr>count = 2\<rparr>)"
proof -
  have h: "length (vars two_handles) < 2 ^ 31"
    "map_of (vars two_handles) 0 = Some \<lparr>pData = Some 0, reference = 1\<rparr>"
    "map_of (vars two_handles) 1 = Some \<lparr>pData = Some 2, reference = 3\<rparr>"
    "rcs two_handles 1 = Some \<lparr>count = 1\<rparr>" "rcs two_handles 3 = Some \<lparr>count = 1\<rparr>"
    "deleted two_handles = []"
    by (simp_all add: two_handles_eq)
  have g: "length (vars shared_pair) < 2 ^ 31"
    "map_of (vars shared_pair) 1 = Some \<lparr>pData = Some 0, reference = 1\<rparr>"
    "map_of (vars shared_pair) 0 = Some \<lparr>pData = Some 0, reference = 1\<rparr>"
    by (simp_all add: shared_pair_eq)
  from reassignment_steps [where s = shared_pair and h = 1 and src = 0
      and this = "\<lparr>pData = Some 0, reference = 1\<rparr>" and sp = "\<lparr>pData = Some 0, reference = 1\<rparr>"]
    consistent_shared_pair g
  have 1: "SP_assign 1 1 shared_pair = Inr shared_pair" "SP_assign 1 0 shared_pair = Inr shared_pair"
    by simp_all
  note r4 = reassignment_steps [where s = two_handles and h = 0 and src = 1
      and this = "\<lparr>pData = Some 0, reference = 1\<rparr>" and sp = "\<lparr>pData = Some 2, reference = 3\<rparr>",
      THEN conjunct2, THEN conjunct2, THEN conjunct2]
  from r4 consistent_two_handles h
  obtain s' rc rc2 where "SP_assign 0 1 two_handles = Inr s'"
    "rcs two_handles 1 = Some rc" "rcs two_handles 3 = Some rc2"
    "if count rc - 1 = 0
          then rcs s' 1 = None \<and> objs s' 0 = None \<and> deleted s' = 0 # deleted two_handles
          else rcs s' 1 = Some (rc\<lparr>count := count rc - 1\<rparr>) \<and>
               objs s' = objs two_handles \<and> deleted s' = deleted two_handles"
    "map_of (vars s') 0 = Some \<lparr>pData = Some 2, reference = 3\<rparr>"
    "rcs s' 3 = Some (rc2\<lparr>count := count rc2 + 1\<rparr>)"
    by auto
  with h have 2: "\<exists>s'. SP_assign 0 1 two_handles = Inr s' \<and> rcs s' 1 = None \<and> objs s' 0 = None \<and>
      deleted s' = [0] \<and> map_of (vars s') 0 = Some \<lparr>pData = Some 2, reference = 3\<rparr> \<and>
      rcs s' 3 = Some \<lparr>count = 2\<rparr>"
    by auto
  from 1 2 h g consistent_shared_pair consistent_two_handles show ?thesis by simp
qed

subsection \<open>Access through an empty handle\<close>

text \<open>
  Claim C5, as stated: dereferencing or member access on a handle without payload fails
  with a deterministic null-access error. It does not hold: neither operator tests
  \<open>pData\<close>. For the handle that \<open>SP<T> h;\<close> builds in the empty state, both
  operators return without a fault and hand the null pointer to the caller.
\<close>

theorem empty_handle_no_check_counterexample:
  "\<not> isl (SP_default 0 (empty_state :: unit state)) \<and>
   op_arrow 0 (projr (SP_default 0 (empty_state :: unit state))) = Inr None \<and>
   op_deref 0 (projr (SP_default 0 (empty_state :: unit state))) = Inr None"
  by (simp add: SP_default_raw SP_raw_effect alive_def empty_state_def op_arrow_def op_deref_def)

text \<open>
  Claim C5, amended: \<open>operator*\<close> and \<open>operator->\<close> of a live handle do no check and
  raise no error; they return the stored pointer as it is, which for a default-constructed
  handle is the null pointer.
\<close>

theorem access_returns_stored_pointer:
  "(map_of (vars s) h = Some sp \<longrightarrow>
      op_deref h s = Inr (pData sp) \<and> op_arrow h s = Inr (pData sp)) \<and>
   (\<not> alive h s \<longrightarrow>
      (\<exists>s'. SP_default h s = Inr s' \<and> op_deref h s' = Inr None \<and> op_arrow h s' = Inr None))"
proof (intro conjI impI)
  assume "map_of (vars s) h = Some sp"
  then show "op_deref h s = Inr (pData sp)" by (simp add: op_deref_def)
next
  assume "map_of (vars s) h = Some sp"
  then show "op_arrow h s = Inr (pData sp)" by (simp add: op_arrow_def)
next
  assume "\<not> alive h s"
  from SP_default_fresh [OF this] show
    "\<exists>s'. SP_default h s = Inr s' \<and> op_deref h s' = Inr None \<and> op_arrow h s' = Inr None"
    by (auto simp: op_deref_def op_arrow_def)
qed

text \<open>
  Claim C5, amended: the default-constructed handle at place 0 of the empty state.
\<close>

theorem access_returns_stored_pointer_witness:
  "map_of (vars (projr (SP_default 0 (empty_state :: unit state)))) 0
      = Some \<lparr>pData = None, reference = 0\<rparr> \<and>
   \<not> alive 0 (empty_state :: unit state) \<and>
   op_arrow 0 (projr (SP_default 0 (empty_state :: unit state))) = Inr None \<and>
   (\<exists>s'. SP_default 0 (empty_state :: unit state) = Inr s' \<and> op_deref 0 s' = Inr None \<and>
      op_arrow 0 s' = Inr None)"
proof -
  have v: "map_of (vars (projr (SP_default 0 (empty_state :: unit state)))) 0
      = Some \<lparr>pData = None, reference = 0\<rparr>"
    by (simp add: SP_default_raw SP_raw_effect alive_def empty_state_def)
  have a: "\<not> alive 0 (empty_state :: unit state)"
    by (simp add: alive_def empty_state_def)
  from access_returns_stored_pointer
    [of "projr (SP_default 0 (empty_state :: unit state))" 0 "\<lparr>pData = None, reference = 0\<rparr>"] v
    access_returns_stored_pointer [of "empty_state :: unit state" 0] a
  show ?thesis by simp
qed

subsection \<open>Decrementing a counter that holds zero\<close>

text \<open>
  Claim C6, as stated: \<open>Release\<close> on a counter that holds zero is a fatal breach that is
  surfaced or ends the process, never a negative count that is returned. It does not hold:
  on the counter that \<open>new RC()\<close> yields, \<open>Release\<close> returns -1, stores -1 and the call
  through the pointer ends without a fault.
\<close>

theorem underflow_not_detected_counterexample:
  "fst (Release \<lparr>count = 0\<rparr>) = - 1 \<and> sint (fst (Release \<lparr>count = 0\<rparr>)) = - 1 \<and>
   count (snd (Release \<lparr>count = 0\<rparr>)) = - 1 \<and>
   \<not> isl (ref_Release (fst (new_RC (empty_state :: unit state))) (snd (new_RC empty_state)))"
  by (simp add: Release_def ref_Release_def new_RC_def empty_state_def)

text \<open>
  Claim C6, amended: \<open>Release\<close> on a counter that holds zero is not detected. It stores
  and returns -1, and the block that called it goes on without freeing anything, since
  -1 is not 0.
\<close>

theorem underflow_returns_minus_one:
  "count rc = 0 \<Longrightarrow>
     Release rc = (- 1, rc\<lparr>count := - 1\<rparr>) \<and> sint (fst (Release rc)) = - 1 \<and>
     (rcs s r = Some rc \<longrightarrow>
        ref_Release r s = Inr (- 1, s\<lparr>rcs := (rcs s)(r \<mapsto> rc\<lparr>count := - 1\<rparr>)\<rparr>)) \<and>
     (rcs s (reference this) = Some rc \<longrightarrow>
        release_block this s = Inr (s\<lparr>rcs := (rcs s)(reference this \<mapsto> rc\<lparr>count := - 1\<rparr>)\<rparr>)) \<and>
     (map_of (vars s) h = Some this \<and> rcs s (reference this) = Some rc \<longrightarrow>
        (\<exists>s'. SP_dtor h s = Inr s' \<and> \<not> alive h s' \<and>
           rcs s' (reference this) = Some (rc\<lparr>count := - 1\<rparr>) \<and>
           objs s' = objs s \<and> deleted s' = deleted s))"
proof (intro conjI impI)
  assume z: "count rc = 0"
  show r: "Release rc = (- 1, rc\<lparr>count := - 1\<rparr>)" using z by (simp add: Release_def)
  show "sint (fst (Release rc)) = - 1" unfolding r by simp
  show "ref_Release r s = Inr (- 1, s\<lparr>rcs := (rcs s)(r \<mapsto> rc\<lparr>count := - 1\<rparr>)\<rparr>)"
    if "rcs s r = Some rc"
    using that by (simp add: ref_Release_def r)
  have rb: "release_block this s =
      Inr (s\<lparr>rcs := (rcs s)(reference this \<mapsto> rc\<lparr>count := - 1\<rparr>)\<rparr>)"
    if "rcs s (reference this) = Some rc"
    using that by (simp add: release_block_def ref_Release_def r)
  then show "release_block this s =
      Inr (s\<lparr>rcs := (rcs s)(reference this \<mapsto> rc\<lparr>count := - 1\<rparr>)\<rparr>)"
    if "rcs s (reference this) = Some rc"
    using that .
  show "\<exists>s'. SP_dtor h s = Inr s' \<and> \<not> alive h s' \<and>
           rcs s' (reference this) = Some (rc\<lparr>count := - 1\<rparr>) \<and>
           objs s' = objs s \<and> deleted s' = deleted s"
    if a: "map_of (vars s) h = Some this \<and> rcs s (reference this) = Some rc"
  proof -
    let ?s = "end_lifetime h (s\<lparr>rcs := (rcs s)(reference this \<mapsto> rc\<lparr>count := - 1\<rparr>)\<rparr>)"
    from a rb have "SP_dtor h s = Inr ?s" by (simp add: SP_dtor_def)
    moreover have "\<not> alive h ?s"
      by (simp add: alive_def end_lifetime_def keys_delete)
    moreover have "rcs ?s (reference this) = Some (rc\<lparr>count := - 1\<rparr>)"
      "objs ?s = objs s" "deleted ?s = deleted s"
      by (simp_all add: end_lifetime_def)
    ultimately show ?thesis by blast
  qed
qed

text \<open>
  Claim C6, amended: the counter that \<open>new RC()\<close> yields in the empty state, and a handle
  that is bound to it before any \<open>AddRef\<close>.
\<close>

theorem underflow_returns_minus_one_witness:
  "count \<lparr>count = 0\<rparr> = 0 \<and> Release \<lparr>count = 0\<rparr> = (- 1, \<lparr>count = - 1\<rparr>) \<and>
   rcs ((snd (new_RC (empty_state :: unit state)))\<lparr>vars := [(0, \<lparr>pData = None, reference = 0\<rparr>)]\<rparr>) 0
     = Some \<lparr>count = 0\<rparr> \<and>
   map_of (vars ((snd (new_RC (empty_state :: unit state)))
      \<lparr>vars := [(0, \<lparr>pData = None, reference = 0\<rparr>)]\<rparr>)) 0 = Some \<lparr>pData = None, reference = 0\<rparr> \<and>
   \<not> isl (release_block \<lparr>pData = None, reference = 0\<rparr>
      ((snd (new_RC (empty_state :: unit state)))\<lparr>vars := [(0, \<lparr>pData = None, reference = 0\<rparr>)]\<rparr>)) \<and>
   (\<exists>s'. SP_dtor 0 ((snd (new_RC (empty_state :: unit state)))
        \<lparr>vars := [(0, \<lparr>pData = None, reference = 0\<rparr>)]\<rparr>) = Inr s' \<and>
      rcs s' 0 = Some \<lparr>count = - 1\<rparr> \<and> deleted s' = [])"
  using underflow_returns_minus_one [where rc = "\<lparr>count = 0\<rparr>"
      and s = "(snd (new_RC (empty_state :: unit state)))\<lparr>vars := [(0, \<lparr>pData = None, reference = 0\<rparr>)]\<rparr>"
      and r = 0 and this = "\<lparr>pData = None, reference = 0\<rparr>" and h = 0]
  by (auto simp: new_RC_def empty_state_def)

subsection \<open>Duplication, the scenario of one value, the counter\<close>

text \<open>
  Claim C7. In a consistent state (fewer than \<open>2^31 - 1\<close> handles), after
  \<open>SP<T> q = p\<close> both operators give the same pointer for \<open>q\<close> as for \<open>p\<close>. When
  \<open>p\<close> has a payload, that pointer is the one address of the value, a read through
  either handle succeeds, and a write through either handle is read back through the
  other. Destroying \<open>q\<close> leaves \<open>p\<close> alive with the same pointer and the same value
  behind it, and nothing is released; the same holds with the two handles exchanged.
\<close>

theorem duplicate_shares_value:
  "consistent s \<and> length (vars s) < 2 ^ 31 - 1 \<and> map_of (vars s) p = Some sp \<and> \<not> alive q s \<longrightarrow>
   (\<exists>s'. SP_copy q p s = Inr s' \<and>
      op_deref q s' = op_deref p s' \<and> op_arrow q s' = op_arrow p s' \<and>
      read_through q s' = read_through p s' \<and>
      (\<forall>a. pData sp = Some a \<longrightarrow>
         op_deref q s' = Inr (Some a) \<and> (\<exists>v. read_through p s' = Inr v) \<and>
         (\<forall>w. \<exists>s2. write_through p w s' = Inr s2 \<and> read_through q s2 = Inr w \<and>
                 read_through p s2 = Inr w) \<and>
         (\<forall>w. \<exists>s2. write_through q w s' = Inr s2 \<and> read_through p s2 = Inr w \<and>
                 read_through q s2 = Inr w)) \<and>
      (\<exists>s2. SP_dtor q s' = Inr s2 \<and> alive p s2 \<and> op_deref p s2 = op_deref p s' \<and>
         read_through p s2 = read_through p s' \<and> deleted s2 = deleted s') \<and>
      (\<exists>s2. SP_dtor p s' = Inr s2 \<and> alive q s2 \<and> op_deref q s2 = op_deref q s' \<and>
         read_through q s2 = read_through q s' \<and> deleted s2 = deleted s'))"
proof
  assume a: "consistent s \<and> length (vars s) < 2 ^ 31 - 1 \<and> map_of (vars s) p = Some sp \<and>
    \<not> alive q s"
  then have c: "consistent s" and b: "length (vars s) < 2 ^ 31 - 1"
    and p: "map_of (vars s) p = Some sp" and q: "\<not> alive q s" by simp_all
  from SP_copy_consistent [OF c q p] obtain rc where
    e: "SP_copy q p s = Inr (s\<lparr>vars := vars s @ [(q, sp)],
                  rcs := (rcs s)(reference sp \<mapsto> rc\<lparr>count := count rc + 1\<rparr>)\<rparr>)"
    and c': "consistent (s\<lparr>vars := vars s @ [(q, sp)],
                  rcs := (rcs s)(reference sp \<mapsto> rc\<lparr>count := count rc + 1\<rparr>)\<rparr>)"
    by blast
  let ?s = "s\<lparr>vars := vars s @ [(q, sp)],
                  rcs := (rcs s)(reference sp \<mapsto> rc\<lparr>count := count rc + 1\<rparr>)\<rparr>"
  have qk: "q \<notin> fst ` set (vars s)" using q by (simp add: alive_def)
  have pq: "p \<noteq> q" using p q by (auto simp: alive_map_of)
  have mq: "map_of (vars ?s) q = Some sp"
    using map_of_snoc_fresh [OF qk, of sp q] by simp
  have mp: "map_of (vars ?s) p = Some sp"
    using map_of_snoc_fresh [OF qk, of sp p] p pq by simp
  have b': "length (vars ?s) < 2 ^ 31" using b by simp
  have d: "op_deref q ?s = op_deref p ?s" "op_arrow q ?s = op_arrow p ?s"
    "read_through q ?s = read_through p ?s"
    unfolding op_deref_def op_arrow_def read_through_def mq mp by simp_all
  have pay: "op_deref q ?s = Inr (Some a) \<and> (\<exists>v. read_through p ?s = Inr v) \<and>
         (\<forall>w. \<exists>s2. write_through p w ?s = Inr s2 \<and> read_through q s2 = Inr w \<and>
                 read_through p s2 = Inr w) \<and>
         (\<forall>w. \<exists>s2. write_through q w ?s = Inr s2 \<and> read_through p s2 = Inr w \<and>
                 read_through q s2 = Inr w)" if pa: "pData sp = Some a" for a
  proof -
    from c have pl: "payloads_ok s" by (simp add: consistent_def)
    have "(p, sp) \<in> set (vars s)" using p by (rule map_of_SomeD)
    from payloads_okD [OF pl this pa] obtain v where v: "objs s a = Some v" by auto
    have 1: "op_deref q ?s = Inr (Some a)"
      unfolding op_deref_def mq using pa by simp
    have 2: "read_through p ?s = Inr v"
      unfolding read_through_def op_deref_def mp using pa v by (simp add: load_def)
    have 3: "write_through p w ?s = Inr (?s\<lparr>objs := (objs s)(a \<mapsto> w)\<rparr>)" for w
      unfolding write_through_def op_deref_def mp using pa v by (simp add: store_def)
    have 4: "write_through q w ?s = Inr (?s\<lparr>objs := (objs s)(a \<mapsto> w)\<rparr>)" for w
      unfolding write_through_def op_deref_def mq using pa v by (simp add: store_def)
    have 5: "read_through p (?s\<lparr>objs := (objs s)(a \<mapsto> w)\<rparr>) = Inr w" for w
      using mp pa by (simp add: read_through_def op_deref_def load_def del: map_of_append)
    have 6: "read_through q (?s\<lparr>objs := (objs s)(a \<mapsto> w)\<rparr>) = Inr w" for w
      using mq pa by (simp add: read_through_def op_deref_def load_def del: map_of_append)
    from 1 2 3 4 5 6 show ?thesis by auto
  qed
  from dtor_of_sharer [OF c' b' mq mp pq [symmetric] refl] obtain s2 where
    dq: "SP_dtor q ?s = Inr s2" "map_of (vars s2) p = Some sp" "objs s2 = objs ?s"
    "deleted s2 = deleted ?s" by blast
  then have dq': "alive p s2" "op_deref p s2 = op_deref p ?s"
    "read_through p s2 = read_through p ?s"
    using read_through_cong [of s2 p ?s] mp by (simp_all add: alive_map_of)
  from dtor_of_sharer [OF c' b' mp mq pq refl] obtain s3 where
    dp: "SP_dtor p ?s = Inr s3" "map_of (vars s3) q = Some sp" "objs s3 = objs ?s"
    "deleted s3 = deleted ?s" by blast
  then have dp': "alive q s3" "op_deref q s3 = op_deref q ?s"
    "read_through q s3 = read_through q ?s"
    using read_through_cong [of s3 q ?s] mq by (simp_all add: alive_map_of)
  show "\<exists>s'. SP_copy q p s = Inr s' \<and>
      op_deref q s' = op_deref p s' \<and> op_arrow q s' = op_arrow p s' \<and>
      read_through q s' = read_through p s' \<and>
      (\<forall>a. pData sp = Some a \<longrightarrow>
         op_deref q s' = Inr (Some a) \<and> (\<exists>v. read_through p s' = Inr v) \<and>
         (\<forall>w. \<exists>s2. write_through p w s' = Inr s2 \<and> read_through q s2 = Inr w \<and>
                 read_through p s2 = Inr w) \<and>
         (\<forall>w. \<exists>s2. write_through q w s' = Inr s2 \<and> read_through p s2 = Inr w \<and>
                 read_through q s2 = Inr w)) \<and>
      (\<exists>s2. SP_dtor q s' = Inr s2 \<and> alive p s2 \<and> op_deref p s2 = op_deref p s' \<and>
         read_through p s2 = read_through p s' \<and> deleted s2 = deleted s') \<and>
      (\<exists>s2. SP_dtor p s' = Inr s2 \<and> alive q s2 \<and> op_deref q s2 = op_deref q s' \<and>
         read_through q s2 = read_through q s' \<and> deleted s2 = deleted s')"
    using e d pay dq(1,4) dq' dp(1,4) dp' by blast
qed

text \<open>
  Claim C7 on the duplicate of a handle that owns a value alone.
\<close>

theorem duplicate_shares_value_witness:
  "consistent single_owner \<and> length (vars single_owner) < 2 ^ 31 - 1 \<and>
   map_of (vars single_owner) 0 = Some \<lparr>pData = Some 0, reference = 1\<rparr> \<and>
   \<not> alive 1 single_owner \<and> pData \<lparr>pData = Some 0, reference = 1\<rparr> = Some 0 \<and>
   (\<exists>s'. SP_copy 1 0 single_owner = Inr s' \<and> op_deref 1 s' = Inr (Some 0) \<and>
      op_deref 0 s' = Inr (Some 0) \<and>
      (\<exists>s2. write_through 0 () s' = Inr s2 \<and> read_through 1 s2 = Inr ()) \<and>
      (\<exists>s2. SP_dtor 1 s' = Inr s2 \<and> alive 0 s2 \<and> read_through 0 s2 = read_through 0 s') \<and>
      (\<exists>s2. SP_dtor 0 s' = Inr s2 \<and> alive 1 s2 \<and> read_through 1 s2 = read_through 1 s'))"
proof -
  have h: "length (vars single_owner) < 2 ^ 31 - 1"
    "map_of (vars single_owner) 0 = Some \<lparr>pData = Some 0, reference = 1\<rparr>"
    "\<not> alive 1 single_owner"
    by (simp_all add: single_owner_eq alive_def)
  from duplicate_shares_value [where s = single_owner and p = 0 and q = 1
      and sp = "\<lparr>pData = Some 0, reference = 1\<rparr>"] consistent_single_owner h
  obtain s' where s': "SP_copy 1 0 single_owner = Inr s'"
    "op_deref 1 s' = op_deref 0 s'"
    "\<forall>a. pData \<lparr>pData = Some 0, reference = 1\<rparr> = Some a \<longrightarrow>
         op_deref 1 s' = Inr (Some a) \<and> (\<exists>v. read_through 0 s' = Inr v) \<and>
         (\<forall>w. \<exists>s2. write_through 0 w s' = Inr s2 \<and> read_through 1 s2 = Inr w \<and>
                 read_through 0 s2 = Inr w) \<and>
         (\<forall>w. \<exists>s2. write_through 1 w s' = Inr s2 \<and> read_through 0 s2 = Inr w \<and>
                 read_through 1 s2 = Inr w)"
    "\<exists>s2. SP_dtor 1 s' = Inr s2 \<and> alive 0 s2 \<and> op_deref 0 s2 = op_deref 0 s' \<and>
         read_through 0 s2 = read_through 0 s' \<and> deleted s2 = deleted s'"
    "\<exists>s2. SP_dtor 0 s' = Inr s2 \<and> alive 1 s2 \<and> op_deref 1 s2 = op_deref 1 s' \<and>
         read_through 1 s2 = read_through 1 s' \<and> deleted s2 = deleted s'"
    by auto
  from s'(3) have "op_deref 1 s' = Inr (Some 0)"
    "\<exists>s2. write_through 0 () s' = Inr s2 \<and> read_through 1 s2 = Inr ()"
    by auto
  with s' h consistent_single_owner show ?thesis by auto
qed

text \<open>
  Claim C8 (scenario A), from any state in which the places \<open>p\<close> and \<open>q\<close> are unused.
  \<open>SP<T> p(new T(v))\<close> binds \<open>p\<close> to a counter at the next unused address, with count
  1. \<open>SP<T> q = p\<close> makes the count 2. The end of \<open>q\<close> makes it 1 again, releases
  nothing, and \<open>v\<close> is still read through \<open>p\<close>. The end of \<open>p\<close> releases the value and
  the counter.
\<close>

theorem scenario_A:
  assumes p: "\<not> alive p s" and q: "\<not> alive q s" and pq: "p \<noteq> q"
  shows "\<exists>s1 s2 s3 s4.
     exec (Construct p v) s = Inr s1 \<and>
     map_of (vars s1) p = Some \<lparr>pData = Some (next_addr s), reference = Suc (next_addr s)\<rparr> \<and>
     rcs s1 (Suc (next_addr s)) = Some \<lparr>count = 1\<rparr> \<and> counter_of p s1 = Some 1 \<and>
     SP_copy q p s1 = Inr s2 \<and> counter_of p s2 = Some 2 \<and> counter_of q s2 = Some 2 \<and>
     SP_dtor q s2 = Inr s3 \<and> counter_of p s3 = Some 1 \<and> \<not> alive q s3 \<and>
     deleted s3 = deleted s \<and> read_through p s3 = Inr v \<and>
     SP_dtor p s3 = Inr s4 \<and> objs s4 (next_addr s) = None \<and>
     deleted s4 = next_addr s # deleted s \<and> rcs s4 (Suc (next_addr s)) = None \<and> vars s4 = vars s"
proof -
  let ?a = "next_addr s"
  let ?P = "\<lparr>pData = Some ?a, reference = Suc ?a\<rparr>"
  let ?s0 = "snd (new_T v s)"
  let ?s1 = "?s0\<lparr>vars := vars s @ [(p, ?P)], rcs := (rcs s)(Suc ?a \<mapsto> \<lparr>count = 1\<rparr>),
                 next_addr := Suc (Suc ?a)\<rparr>"
  let ?s2 = "?s1\<lparr>vars := vars s @ [(p, ?P), (q, ?P)], rcs := (rcs s)(Suc ?a \<mapsto> \<lparr>count = 2\<rparr>)\<rparr>"
  let ?s3 = "?s1"
  let ?s4 = "?s0\<lparr>rcs := (rcs s)(Suc ?a := None), objs := (objs s)(?a := None),
                 deleted := ?a # deleted s, next_addr := Suc (Suc ?a)\<rparr>"
  have pk: "p \<notin> fst ` set (vars s)" and qk: "q \<notin> fst ` set (vars s)"
    using p q by (simp_all add: alive_def)
  have p0: "\<not> alive p ?s0" using p by (simp add: alive_def)
  have e1: "exec (Construct p v) s = Inr ?s1"
    using SP_raw_effect [OF p0, of "Some ?a"] by (simp add: new_T_def)
  have m1: "map_of (vars ?s1) p = Some ?P"
    using pk by (simp add: map_of_snoc_fresh del: map_of_append)
  have q1: "\<not> alive q ?s1" using q pq by (simp add: alive_def)
  have r1: "rcs ?s1 (reference ?P) = Some \<lparr>count = 1\<rparr>" by simp
  have e2: "SP_copy q p ?s1 = Inr ?s2"
    using SP_copy_effect [OF q1 m1 r1] by simp
  have qk2: "q \<notin> fst ` set (vars s @ [(p, ?P)])" using qk pq by simp
  have m2q: "map_of (vars ?s2) q = Some ?P"
    using map_of_snoc_fresh [OF qk2, of ?P q] by simp
  have m2p: "map_of (vars ?s2) p = Some ?P"
    using map_of_snoc_fresh [OF qk2, of ?P p] map_of_snoc_fresh [OF pk, of ?P p] pq by simp
  have r2: "rcs ?s2 (reference ?P) = Some \<lparr>count = 2\<rparr>" by simp
  have o2: "case pData ?P of None \<Rightarrow> True | Some a \<Rightarrow> objs ?s2 a \<noteq> None" by simp
  have d2: "AList.delete q (vars ?s2) = vars s @ [(p, ?P)]"
    using delete_snoc_fresh [OF qk2, of ?P] by simp
  have e3: "SP_dtor q ?s2 = Inr ?s3"
    unfolding SP_dtor_effect [OF m2q r2 o2] using d2 by (simp add: end_lifetime_def)
  have o3: "case pData ?P of None \<Rightarrow> True | Some a \<Rightarrow> objs ?s3 a \<noteq> None" by simp
  have d3: "AList.delete p (vars ?s3) = vars s"
    using delete_snoc_fresh [OF pk, of ?P] by simp
  have e4: "SP_dtor p ?s3 = Inr ?s4"
    unfolding SP_dtor_effect [OF m1 r1 o3] using d3 by (simp add: end_lifetime_def new_T_def)
  have c1: "counter_of p ?s1 = Some 1" using m1 by (simp add: counter_of_def)
  have c2: "counter_of p ?s2 = Some 2" "counter_of q ?s2 = Some 2"
    using m2p m2q by (simp_all add: counter_of_def)
  have rd: "read_through p ?s3 = Inr v"
    using m1 by (simp add: read_through_def op_deref_def load_def)
  have "deleted ?s3 = deleted s" "objs ?s4 ?a = None" "deleted ?s4 = ?a # deleted s"
    "rcs ?s4 (Suc ?a) = None" "vars ?s4 = vars s" "rcs ?s1 (Suc ?a) = Some \<lparr>count = 1\<rparr>"
    by simp_all
  with e1 m1 c1 e2 c2 e3 q1 rd e4 show ?thesis by blast
qed

text \<open>
  Claim C8 from the empty state, with the value 7.
\<close>

theorem scenario_A_witness:
  "\<not> alive 0 (empty_state :: nat state) \<and> \<not> alive 1 (empty_state :: nat state) \<and> (0::nat) \<noteq> 1 \<and>
   (\<exists>s1 s2 s3 s4.
     exec (Construct 0 (7::nat)) empty_state = Inr s1 \<and> counter_of 0 s1 = Some 1 \<and>
     SP_copy 1 0 s1 = Inr s2 \<and> counter_of 0 s2 = Some 2 \<and>
     SP_dtor 1 s2 = Inr s3 \<and> counter_of 0 s3 = Some 1 \<and> read_through 0 s3 = Inr 7 \<and>
     SP_dtor 0 s3 = Inr s4 \<and> objs s4 0 = None \<and> deleted s4 = [0])"
proof -
  have a: "\<not> alive 0 (empty_state :: nat state)" "\<not> alive 1 (empty_state :: nat state)"
    by (simp_all add: alive_def empty_state_def)
  have n: "(0::nat) \<noteq> 1" by simp
  have e: "next_addr (empty_state :: nat state) = 0" "deleted (empty_state :: nat state) = []"
    by (simp_all add: empty_state_def)
  from scenario_A [OF a n, of 7] a n show ?thesis
    unfolding e by blast
qed

text \<open>
  Claim C9. \<open>AddRef\<close> adds one to the count, whatever the count, and through a pointer to
  a counter that exists it cannot fail. \<open>Release\<close> subtracts one and returns the new
  count. The destructor and \<open>operator=\<close> free the value and the counter when the returned
  count is 0, and otherwise keep both and store the decremented counter.
\<close>

theorem counter_operations:
  "count (AddRef rc) = count rc + 1 \<and>
   (rcs s r = Some rc \<longrightarrow>
      ref_AddRef r s = Inr (s\<lparr>rcs := (rcs s)(r \<mapsto> rc\<lparr>count := count rc + 1\<rparr>)\<rparr>)) \<and>
   Release rc = (count rc - 1, rc\<lparr>count := count rc - 1\<rparr>) \<and>
   (map_of (vars s) h = Some this \<and> rcs s (reference this) = Some rc \<and>
    (case pData this of None \<Rightarrow> True | Some a \<Rightarrow> objs s a \<noteq> None) \<longrightarrow>
      (\<exists>s'. SP_dtor h s = Inr s' \<and>
         (if fst (Release rc) = 0
          then rcs s' (reference this) = None \<and>
               (case pData this of
                  None \<Rightarrow> objs s' = objs s \<and> deleted s' = deleted s
                | Some a \<Rightarrow> objs s' a = None \<and> deleted s' = a # deleted s)
          else rcs s' (reference this) = Some (snd (Release rc)) \<and>
               objs s' = objs s \<and> deleted s' = deleted s)) \<and>
      (map_of (vars s) src = Some sp \<and> h \<noteq> src \<and> reference sp \<noteq> reference this \<and>
       rcs s (reference sp) \<noteq> None \<longrightarrow>
        (\<exists>s'. SP_assign h src s = Inr s' \<and>
           (if fst (Release rc) = 0
            then rcs s' (reference this) = None \<and>
                 (case pData this of
                    None \<Rightarrow> objs s' = objs s \<and> deleted s' = deleted s
                  | Some a \<Rightarrow> objs s' a = None \<and> deleted s' = a # deleted s)
            else rcs s' (reference this) = Some (snd (Release rc)) \<and>
                 objs s' = objs s \<and> deleted s' = deleted s))))"
proof (intro conjI impI)
  show "count (AddRef rc) = count rc + 1" by (simp add: AddRef_def)
  show "Release rc = (count rc - 1, rc\<lparr>count := count rc - 1\<rparr>)" by (simp add: Release_def)
next
  assume "rcs s r = Some rc"
  then show "ref_AddRef r s = Inr (s\<lparr>rcs := (rcs s)(r \<mapsto> rc\<lparr>count := count rc + 1\<rparr>)\<rparr>)"
    by (simp add: ref_AddRef_def AddRef_def)
next
  assume a: "map_of (vars s) h = Some this \<and> rcs s (reference this) = Some rc \<and>
    (case pData this of None \<Rightarrow> True | Some a \<Rightarrow> objs s a \<noteq> None)"
  then have e: "SP_dtor h s = Inr (end_lifetime h (if count rc - 1 = 0
          then s\<lparr>rcs := (rcs s)(reference this := None),
                 objs := (case pData this of None \<Rightarrow> objs s | Some a \<Rightarrow> (objs s)(a := None)),
                 deleted := (case pData this of None \<Rightarrow> deleted s | Some a \<Rightarrow> a # deleted s)\<rparr>
          else s\<lparr>rcs := (rcs s)(reference this \<mapsto> rc\<lparr>count := count rc - 1\<rparr>)\<rparr>))"
    by (intro SP_dtor_effect) simp_all
  show "\<exists>s'. SP_dtor h s = Inr s' \<and>
         (if fst (Release rc) = 0
          then rcs s' (reference this) = None \<and>
               (case pData this of
                  None \<Rightarrow> objs s' = objs s \<and> deleted s' = deleted s
                | Some a \<Rightarrow> objs s' a = None \<and> deleted s' = a # deleted s)
          else rcs s' (reference this) = Some (snd (Release rc)) \<and>
               objs s' = objs s \<and> deleted s' = deleted s)"
    unfolding e by (simp add: Release_def end_lifetime_def split: option.splits)
next
  assume a: "map_of (vars s) h = Some this \<and> rcs s (reference this) = Some rc \<and>
    (case pData this of None \<Rightarrow> True | Some a \<Rightarrow> objs s a \<noteq> None)"
  assume b: "map_of (vars s) src = Some sp \<and> h \<noteq> src \<and> reference sp \<noteq> reference this \<and>
       rcs s (reference sp) \<noteq> None"
  from a b have e: "SP_assign h src s = ref_AddRef (reference sp)
       ((if count rc - 1 = 0
          then s\<lparr>rcs := (rcs s)(reference this := None),
                 objs := (case pData this of None \<Rightarrow> objs s | Some a \<Rightarrow> (objs s)(a := None)),
                 deleted := (case pData this of None \<Rightarrow> deleted s | Some a \<Rightarrow> a # deleted s)\<rparr>
          else s\<lparr>rcs := (rcs s)(reference this \<mapsto> rc\<lparr>count := count rc - 1\<rparr>)\<rparr>)
        \<lparr>vars := AList.update h sp (vars s)\<rparr>)"
    by (intro SP_assign_effect) simp_all
  from b obtain rc2 where rc2: "rcs s (reference sp) = Some rc2" by auto
  show "\<exists>s'. SP_assign h src s = Inr s' \<and>
           (if fst (Release rc) = 0
            then rcs s' (reference this) = None \<and>
                 (case pData this of
                    None \<Rightarrow> objs s' = objs s \<and> deleted s' = deleted s
                  | Some a \<Rightarrow> objs s' a = None \<and> deleted s' = a # deleted s)
            else rcs s' (reference this) = Some (snd (Release rc)) \<and>
                 objs s' = objs s \<and> deleted s' = deleted s)"
    unfolding e using b rc2
    by (simp add: Release_def ref_AddRef_def split: option.splits)
qed

text \<open>
  Claim C9 on two handles that own a value each: the count of the first is 1, so its
  destructor and its reassignment free the value.
\<close>

theorem counter_operations_witness:
  "rcs two_handles 1 = Some \<lparr>count = 1\<rparr> \<and>
   map_of (vars two_handles) 0 = Some \<lparr>pData = Some 0, reference = 1\<rparr> \<and>
   objs two_handles 0 \<noteq> None \<and>
   map_of (vars two_handles) 1 = Some \<lparr>pData = Some 2, reference = 3\<rparr> \<and>
   rcs two_handles 3 \<noteq> None \<and>
   fst (Release \<lparr>count = 1\<rparr>) = 0 \<and>
   (\<exists>s'. SP_dtor 0 two_handles = Inr s' \<and> rcs s' 1 = None \<and> objs s' 0 = None \<and>
      deleted s' = [0]) \<and>
   (\<exists>s'. SP_assign 0 1 two_handles = Inr s' \<and> rcs s' 1 = None \<and> objs s' 0 = None \<and>
      deleted s' = [0])"
  using counter_operations [where rc = "\<lparr>count = 1\<rparr>" and s = two_handles and r = 1 and h = 0
      and this = "\<lparr>pData = Some 0, reference = 1\<rparr>" and src = 1
      and sp = "\<lparr>pData = Some 2, reference = 3\<rparr>"]
  by (simp add: two_handles_eq Release_def)

text \<open>
  Claim C10. In a consistent state with fewer than \<open>2^31\<close> handles, let \<open>p\<close> and \<open>q\<close>
  be two different live handles with the same value pointer and the same counter. The
  counter is at least 2, so the decrement in \<open>p = q\<close> does not yield 0 and the release
  block frees nothing; after the increment the state is the state before.
\<close>

theorem shared_binding_assignment_is_neutral:
  assumes c: "consistent s" and b: "length (vars s) < 2 ^ 31"
    and x: "map_of (vars s) p = Some x" and y: "map_of (vars s) q = Some y"
    and pq: "p \<noteq> q" and r: "reference x = reference y" and d: "pData x = pData y"
  shows "2 \<le> refcount (reference x) (vars s) \<and>
         (\<exists>rc. rcs s (reference x) = Some rc \<and> 2 \<le> sint (count rc) \<and>
            fst (Release rc) \<noteq> 0 \<and>
            release_block x s = Inr (s\<lparr>rcs := (rcs s)(reference x \<mapsto> snd (Release rc))\<rparr>)) \<and>
         SP_assign p q s = Inr s"
proof -
  from c have dk: "distinct (map fst (vars s))" by (simp add: consistent_def keys_ok_def)
  have 1: "2 \<le> refcount (reference x) (vars s)" by (rule refcount_two [OF dk x y pq r])
  from shared_counter_survives [OF c b x y pq r]
  have 2: "\<exists>rc. rcs s (reference x) = Some rc \<and> 2 \<le> sint (count rc) \<and>
            fst (Release rc) \<noteq> 0 \<and>
            release_block x s = Inr (s\<lparr>rcs := (rcs s)(reference x \<mapsto> snd (Release rc))\<rparr>)"
    by (simp add: Release_def)
  have 3: "SP_assign p q s = Inr s" by (rule assign_same_binding [OF c b x y r])
  from 1 2 3 show ?thesis by blast
qed

text \<open>
  Claim C10 on two handles that share a value: \<open>q = p\<close> for the duplicate \<open>q\<close> of
  \<open>p\<close>.
\<close>

theorem shared_binding_assignment_is_neutral_witness:
  "consistent shared_pair \<and> length (vars shared_pair) < 2 ^ 31 \<and>
   map_of (vars shared_pair) 1 = Some \<lparr>pData = Some 0, reference = 1\<rparr> \<and>
   map_of (vars shared_pair) 0 = Some \<lparr>pData = Some 0, reference = 1\<rparr> \<and>
   SP_assign 1 0 shared_pair = Inr shared_pair \<and> counter_of 0 shared_pair = Some 2"
proof -
  have x: "map_of (vars shared_pair) 1 = Some \<lparr>pData = Some 0, reference = 1\<rparr>"
    and y: "map_of (vars shared_pair) 0 = Some \<lparr>pData = Some 0, reference = 1\<rparr>"
    and b: "length (vars shared_pair) < 2 ^ 31"
    and k: "counter_of 0 shared_pair = Some 2"
    by (simp_all add: shared_pair_eq counter_of_def)
  from shared_binding_assignment_is_neutral [OF consistent_shared_pair b x y] x y b k
    consistent_shared_pair
  show ?thesis by simp
qed

end
